(* ===== verification/Calm_Prelude.thy ===== *)
theory Calm_Prelude
  imports Main "HOL-Library.Multiset"
begin

text \<open>
  Shared vocabulary of the development: the Python exceptions the code can raise, the
  Python 2 byte-string primitives the data pipeline is built from (iteration over the
  lines of a file, \<open>str.split('\t')\<close>, \<open>str.split()\<close>, \<open>str.lower()\<close>), and the
  generic lemmas on lists and positions that the component theories share.
  Strings are byte strings (\<open>char list\<close>): the sources are Python 2 programs reading a
  bz2 file in binary mode, so every character is one byte and \<open>lower\<close> and
  \<open>split\<close> act on ASCII only.
\<close>

named_theorems calm_defs "definitions of the model unfolded by the component proofs"
named_theorems split_facts "facts about the modelled Python string splitting"

section \<open>Errors\<close>

text \<open>
  One datatype for every exception the modelled code raises or every fatal usage error
  the specification names; a fallible operation returns \<open>py_error + 'a\<close>.
\<close>

datatype py_error =
    ValueError          \<comment> \<open>\<open>username, text = line.split('\t')\<close> on a line without exactly one tab\<close>
  | ZeroDivisionError   \<comment> \<open>\<open>x % 0\<close>, \<open>x / 0\<close>\<close>
  | IndexError          \<comment> \<open>a sequence index out of range (\<open>seq_len[0]\<close> of an empty batch)\<close>
  | KeyError            \<comment> \<open>a dictionary lookup of an absent key (\<open>idx_to_word[i]\<close>, \<open>models[name]\<close>)\<close>
  | IOError             \<comment> \<open>opening a file that does not exist\<close>
  | OSError             \<comment> \<open>\<open>os.mkdir\<close> of a path that exists\<close>
  | CorruptFile         \<comment> \<open>unpickling a blob that is not a saved vocabulary\<close>
  | NotPrepared         \<comment> \<open>a batch requested before \<open>Prepare\<close>\<close>
  | EmptyDataset        \<comment> \<open>a batch requested from a dataset with no records\<close>

type_synonym token = string
type_synonym 'a result = "py_error + 'a"

text \<open>Running a list of fallible steps in order, stopping at the first exception.\<close>

fun sequence_result :: "'a result list \<Rightarrow> 'a list result" where
  "sequence_result [] = Inr []"
| "sequence_result (r # rs) =
     (case r of Inl e \<Rightarrow> Inl e
      | Inr x \<Rightarrow> (case sequence_result rs of Inl e \<Rightarrow> Inl e | Inr xs \<Rightarrow> Inr (x # xs)))"

lemma sequence_result_map_Inr [simp]: "sequence_result (map (\<lambda>x. Inr (f x)) xs) = Inr (map f xs)"
  by (induction xs) auto

lemma sequence_result_Inr:
  "(\<And>r. r \<in> set rs \<Longrightarrow> \<exists>x. r = Inr x) \<Longrightarrow> \<exists>xs. sequence_result rs = Inr xs"
  by (induction rs) (auto split: sum.splits)

section \<open>Characters\<close>

definition NL :: char where "NL = CHR 0x0A"
definition TAB :: char where "TAB = CHR 0x09"
definition COMMA :: char where "COMMA = CHR 0x2C"

text \<open>Python 2 \<open>str.isspace\<close> on one byte: tab, LF, VT, FF, CR and space.\<close>

definition is_py_space :: "char \<Rightarrow> bool" where
  "is_py_space c \<longleftrightarrow> (of_char c :: nat) \<in> {9, 10, 11, 12, 13, 32}"

text \<open>Python 2 \<open>str.lower\<close> on one byte: \<open>A\<close>..\<open>Z\<close> move by 32, every other byte stays.\<close>

definition lower_char :: "char \<Rightarrow> char" where
  "lower_char c = (let n = (of_char c :: nat) in if 65 \<le> n \<and> n \<le> 90 then char_of (n + 32) else c)"

definition py_lower :: "string \<Rightarrow> string" where
  "py_lower s = map lower_char s"

definition is_upper :: "char \<Rightarrow> bool" where
  "is_upper c \<longleftrightarrow> 65 \<le> (of_char c :: nat) \<and> (of_char c :: nat) \<le> 90"

lemma of_char_lower_char:
  "(of_char (lower_char c) :: nat) =
     (if 65 \<le> (of_char c :: nat) \<and> (of_char c :: nat) \<le> 90 then of_char c + 32 else of_char c)"
  by (simp add: lower_char_def Let_def)

lemma of_char_NL [simp]: "(of_char NL :: nat) = 10"
  by (simp add: NL_def)

lemma eq_NL_iff: "c = NL \<longleftrightarrow> (of_char c :: nat) = 10"
  by (metis of_char_NL of_char_eq_iff)

lemma NL_space [simp]: "is_py_space NL"
  by (simp add: is_py_space_def)

lemma lower_char_not_upper [simp]: "\<not> is_upper (lower_char c)"
  by (simp add: is_upper_def of_char_lower_char)

lemma lower_char_space [simp]: "is_py_space (lower_char c) \<longleftrightarrow> is_py_space c"
  by (simp add: is_py_space_def of_char_lower_char)

lemma lower_char_NL [simp]: "lower_char c = NL \<longleftrightarrow> c = NL"
  by (simp add: eq_NL_iff of_char_lower_char)

section \<open>Splitting\<close>

text \<open>
  \<open>split_when P s\<close> cuts \<open>s\<close> at every character satisfying \<open>P\<close>; the separators are
  dropped and empty fields are kept. \<open>s.split(d)\<close> for one character \<open>d\<close> is
  \<open>split_when ((=) d)\<close>; \<open>s.split()\<close> is the same cut at whitespace with the empty
  fields removed (Python: runs of whitespace are one separator and no empty strings are
  returned).
\<close>

fun split_when :: "(char \<Rightarrow> bool) \<Rightarrow> string \<Rightarrow> string list" where
  "split_when P [] = [[]]"
| "split_when P (c # cs) =
     (let r = split_when P cs in if P c then [] # r else (c # hd r) # tl r)"

definition split_sep :: "char \<Rightarrow> string \<Rightarrow> string list" where
  "split_sep d s = split_when (\<lambda>c. c = d) s"

definition split_ws :: "string \<Rightarrow> string list" where
  "split_ws s = filter (\<lambda>w. w \<noteq> []) (split_when is_py_space s)"

lemma split_when_nonempty [simp, split_facts]: "split_when P s \<noteq> []"
  by (induction s) (auto simp: Let_def)

lemma length_split_when [split_facts]:
  "length (split_when P s) = Suc (length (filter P s))"
  by (induction s) (auto simp: Let_def)

lemma split_when_fields [split_facts]:
  "w \<in> set (split_when P s) \<Longrightarrow> c \<in> set w \<Longrightarrow> \<not> P c"
proof (induction s arbitrary: w)
  case Nil
  then show ?case by simp
next
  case (Cons x xs)
  obtain h t where ht: "split_when P xs = h # t"
    by (cases "split_when P xs") auto
  show ?case
  proof (cases "P x")
    case True
    with Cons.prems Cons.IH ht show ?thesis by (auto simp: Let_def)
  next
    case False
    with Cons.prems ht have "w = x # h \<or> w \<in> set t" by (auto simp: Let_def)
    then show ?thesis
    proof
      assume "w = x # h"
      with Cons.prems False ht show ?thesis using Cons.IH [of h] by auto
    next
      assume "w \<in> set t"
      with Cons.prems ht show ?thesis using Cons.IH [of w] by auto
    qed
  qed
qed

lemma concat_split_when [split_facts]:
  "concat (split_when P s) = filter (\<lambda>c. \<not> P c) s"
proof (induction s)
  case Nil
  then show ?case by simp
next
  case (Cons x xs)
  obtain h t where "split_when P xs = h # t"
    by (cases "split_when P xs") auto
  with Cons show ?case by (auto simp: Let_def)
qed

text \<open>Python's \<open>d.join(fields)\<close>; joining the fields of \<open>s.split(d)\<close> gives back \<open>s\<close>.\<close>

fun py_join :: "char \<Rightarrow> string list \<Rightarrow> string" where
  "py_join d [] = []"
| "py_join d [w] = w"
| "py_join d (w # v # ws) = w @ d # py_join d (v # ws)"

lemma py_join_Cons_hd: "t \<noteq> [] \<Longrightarrow> py_join d ((c # h) # t) = c # py_join d (h # t)"
  by (cases t) auto

lemma join_split_sep [split_facts]: "py_join d (split_sep d s) = s"
proof (induction s)
  case Nil
  then show ?case by (simp add: split_sep_def)
next
  case (Cons x xs)
  obtain h t where ht: "split_sep d xs = h # t"
    by (cases "split_sep d xs") (auto simp: split_sep_def)
  show ?case
  proof (cases "x = d")
    case True
    with Cons.IH ht show ?thesis by (simp add: split_sep_def Let_def)
  next
    case False
    then have "split_sep d (x # xs) = (x # h) # t"
      using ht by (simp add: split_sep_def Let_def)
    with Cons.IH ht show ?thesis by (cases t) auto
  qed
qed

lemma split_sep_fields [split_facts]:
  "w \<in> set (split_sep d s) \<Longrightarrow> d \<notin> set w"
  unfolding split_sep_def using split_when_fields by fastforce

lemma length_split_sep [split_facts]:
  "length (split_sep d s) = Suc (count_list s d)"
  by (induction s) (auto simp: split_sep_def Let_def)

lemma split_ws_fields [split_facts]:
  assumes "w \<in> set (split_ws s)"
  shows "w \<noteq> []" and "\<And>c. c \<in> set w \<Longrightarrow> \<not> is_py_space c"
  using assms split_when_fields [of w is_py_space s] by (auto simp: split_ws_def)

lemma concat_split_ws [split_facts]:
  "concat (split_ws s) = filter (\<lambda>c. \<not> is_py_space c) s"
proof -
  have "concat (filter (\<lambda>w. w \<noteq> []) xs) = concat xs" for xs :: "string list"
    by (induction xs) auto
  then show ?thesis by (simp add: split_ws_def concat_split_when)
qed

lemma split_ws_lower_fields [split_facts]:
  "w \<in> set (split_ws (py_lower s)) \<Longrightarrow> c \<in> set w \<Longrightarrow> \<not> is_upper c"
proof -
  assume "w \<in> set (split_ws (py_lower s))" "c \<in> set w"
  then have "c \<in> set (concat (split_ws (py_lower s)))" by auto
  then show "\<not> is_upper c" by (auto simp: concat_split_ws py_lower_def)
qed

section \<open>Lines of a file\<close>

text \<open>
  Iterating over a file object yields its lines, each with its terminating newline; the
  last line has none when the file does not end in a newline.
\<close>

fun py_lines :: "string \<Rightarrow> string list" where
  "py_lines [] = []"
| "py_lines (c # cs) =
     (if c = NL then [c] # py_lines cs
      else (case py_lines cs of [] \<Rightarrow> [[c]] | l # ls \<Rightarrow> (c # l) # ls))"

lemma concat_py_lines [simp]: "concat (py_lines s) = s"
  by (induction s) (auto split: list.splits)

lemma py_lines_nonempty_lines: "l \<in> set (py_lines s) \<Longrightarrow> l \<noteq> []"
  by (induction s arbitrary: l) (auto split: if_splits list.splits)

lemma py_lines_NL_last:
  "l \<in> set (py_lines s) \<Longrightarrow> NL \<notin> set (butlast l)"
proof (induction s arbitrary: l)
  case Nil
  then show ?case by simp
next
  case (Cons c cs)
  show ?case
  proof (cases "c = NL")
    case True
    with Cons show ?thesis by auto
  next
    case False
    show ?thesis
    proof (cases "py_lines cs")
      case Nil
      with Cons.prems False show ?thesis by auto
    next
      case (Cons l' ls)
      have "l' \<in> set (py_lines cs)" using Cons by simp
      then have "l' \<noteq> []" by (rule py_lines_nonempty_lines)
      then have "butlast (c # l') = c # butlast l'" by simp
      with Cons Cons.IH Cons.prems False show ?thesis by auto
    qed
  qed
qed

text \<open>A file written line by line, each line newline-terminated, reads back as those lines.\<close>

lemma py_lines_terminated:
  "(\<And>l. l \<in> set ls \<Longrightarrow> NL \<notin> set l) \<Longrightarrow> py_lines (concat (map (\<lambda>l. l @ [NL]) ls)) = map (\<lambda>l. l @ [NL]) ls"
proof (induction ls)
  case Nil
  then show ?case by simp
next
  case (Cons l ls)
  have "py_lines (l @ NL # s) = (l @ [NL]) # py_lines s" if "NL \<notin> set l" for s
    using that by (induction l) auto
  with Cons show ?case by simp
qed

lemma set_hd_last_mid:
  assumes "2 \<le> length xs"
  shows "set xs = insert (hd xs) (insert (last xs) (set (butlast (tl xs))))"
proof (cases xs)
  case (Cons a ys)
  with assms have "ys \<noteq> []" by auto
  then have "set ys = insert (last ys) (set (butlast ys))"
    by (metis append_butlast_last_id insert_is_Un set_append set_simps(2) sup_commute empty_set)
  with Cons \<open>ys \<noteq> []\<close> show ?thesis by auto
qed (use assms in simp)

section \<open>Positions\<close>

text \<open>
  The reader and the batcher select records by their position; these are the counting
  facts on positions the component proofs share.
\<close>

lemma count_mod_zero:
  "0 < n \<Longrightarrow> length (filter (\<lambda>i. i mod n = 0) [0..<k]) = k div n + (if k mod n = 0 then 0 else 1)"
proof (induction k)
  case 0
  then show ?case by simp
next
  case (Suc k)
  then show ?case by (auto simp: div_Suc mod_Suc)
qed

text \<open>Cutting a list into \<open>n\<close> classes by a key modulo \<open>n\<close> loses and duplicates nothing.\<close>

lemma sum_mset_mod_filter:
  fixes f :: "'a \<Rightarrow> nat"
  assumes "0 < n"
  shows "(\<Sum>w<n. mset (map g (filter (\<lambda>x. f x mod n = w) xs))) = mset (map g xs)"
proof (induction xs)
  case Nil
  then show ?case by simp
next
  case (Cons x xs)
  have each: "mset (map g (filter (\<lambda>x. f x mod n = w) (x # xs))) =
      (if f x mod n = w then {#g x#} else {#}) + mset (map g (filter (\<lambda>x. f x mod n = w) xs))" for w
    by simp
  have "(\<Sum>w<n. mset (map g (filter (\<lambda>x. f x mod n = w) (x # xs)))) =
        (\<Sum>w<n. (if f x mod n = w then {#g x#} else {#})) +
        (\<Sum>w<n. mset (map g (filter (\<lambda>x. f x mod n = w) xs)))"
    by (simp only: each sum.distrib)
  also have "(\<Sum>w<n. (if f x mod n = w then {#g x#} else {#})) = {#g x#}"
    using assms by (simp add: sum.delta')
  finally show ?case using Cons by simp
qed

text \<open>Splitting a list by a predicate and its negation loses and duplicates nothing.\<close>

lemma mset_map_filter_partition:
  "mset (map g (filter P xs)) + mset (map g (filter (\<lambda>x. \<not> P x) xs)) = mset (map g xs)"
  by (induction xs) auto

end
