(* ===== verification/Corpus_Reader.thy ===== *)
theory Corpus_Reader
  imports Calm_Prelude
begin

text \<open>
  The corpus reader: \<open>ReadData\<close> of \<open>src/rnnlm.py\<close> (lines 33--55) reads the lines of the
  decompressed corpus, splits each at its tab into user name and text, keeps the lines of
  the requested partition (train: position not divisible by 10; otherwise: divisible by
  10) up to the position \<open>limit\<close>, and tokenizes the text (lower case, whitespace split,
  sentence markers). The loop is modelled as a structural recursion over the lines with
  the position and the two output lists as accumulators; the exception of the tuple
  unpacking is the \<open>Inl ValueError\<close> branch. A declarative description
  (\<open>read_spec\<close>) states which records come out, and the loop is proved equal to it.
\<close>

section \<open>Model of \<open>ReadData\<close>\<close>

text \<open>The \<open>--mode\<close> flag of \<open>rnnlm.py\<close>: \<open>choices=['train', 'debug', 'eval']\<close>.\<close>

datatype mode = Train | Debug | Eval

text \<open>\<open>['<S>'] + text.lower().split() + ['</S>']\<close>\<close>

definition BOS :: token where "BOS = ''<S>''"
definition EOS :: token where "EOS = ''</S>''"

definition tokenize :: "string \<Rightarrow> token list" where
  "tokenize text = [BOS] @ split_ws (py_lower text) @ [EOS]"

text \<open>\<open>username, text = line.split('\t')\<close>: unpacking raises unless there are exactly two fields.\<close>

definition parse_line :: "string \<Rightarrow> (string \<times> string) result" where
  "parse_line line = (case split_sep TAB line of [username, text] \<Rightarrow> Inr (username, text) | _ \<Rightarrow> Inl ValueError)"

text \<open>
  The \<open>for idnum, line in enumerate(f)\<close> loop. The split comes first, so the line at
  position \<open>limit + 1\<close> is split (and may raise) before the \<open>break\<close>.
\<close>

fun read_data_loop ::
  "mode \<Rightarrow> nat \<Rightarrow> nat \<Rightarrow> string list \<Rightarrow> string list \<times> token list list
     \<Rightarrow> (string list \<times> token list list) result" where
  "read_data_loop md limit idnum [] acc = Inr acc"
| "read_data_loop md limit idnum (line # rest) (usernames, texts) =
     (case parse_line line of
        Inl e \<Rightarrow> Inl e
      | Inr (username, text) \<Rightarrow>
          if limit < idnum then Inr (usernames, texts)
          else if md = Train \<and> idnum mod 10 < 1 then
            read_data_loop md limit (Suc idnum) rest (usernames, texts)
          else if md \<noteq> Train \<and> idnum mod 10 \<ge> 1 then
            read_data_loop md limit (Suc idnum) rest (usernames, texts)
          else read_data_loop md limit (Suc idnum) rest
                 (usernames @ [username], texts @ [tokenize text]))"

definition read_data :: "mode \<Rightarrow> nat \<Rightarrow> string \<Rightarrow> (string list \<times> token list list) result" where
  "read_data md limit content = read_data_loop md limit 0 (py_lines content) ([], [])"

text \<open>The default \<open>limit=2500000\<close> of \<open>ReadData\<close>.\<close>

definition default_limit :: nat where "default_limit = 2500000"

section \<open>Declarative description\<close>

text \<open>
  A line parses iff it holds exactly one tab; its record is the user name before the tab
  and the tokens of the text after it. A position belongs to the train partition iff it
  is not divisible by 10; the debug and eval modes read the other positions.
\<close>

definition line_ok :: "string \<Rightarrow> bool" where
  "line_ok l \<longleftrightarrow> count_list l TAB = 1"

definition record_of :: "string \<Rightarrow> string \<times> token list" where
  "record_of l = (let fs = split_sep TAB l in (fs ! 0, tokenize (fs ! 1)))"

definition in_partition :: "mode \<Rightarrow> nat \<Rightarrow> bool" where
  "in_partition md i \<longleftrightarrow> (if md = Train then i mod 10 \<noteq> 0 else i mod 10 = 0)"

text \<open>
  The lines the loop splits are the first \<open>limit + 2\<close>; the records it keeps come from
  the first \<open>limit + 1\<close>, in order, restricted to the partition.
\<close>

definition read_records :: "mode \<Rightarrow> nat \<Rightarrow> nat \<Rightarrow> string list \<Rightarrow> (string \<times> token list) list" where
  "read_records md limit i ls =
     map (record_of \<circ> snd) (filter (\<lambda>(j, _). in_partition md j) (enumerate i (take (Suc limit - i) ls)))"

definition read_spec :: "mode \<Rightarrow> nat \<Rightarrow> string list \<Rightarrow> (string list \<times> token list list) result" where
  "read_spec md limit ls =
     (if list_all line_ok (take (limit + 2) ls)
      then Inr (map fst (read_records md limit 0 ls), map snd (read_records md limit 0 ls))
      else Inl ValueError)"

section \<open>Parsing one line\<close>

lemma parse_line_ok: "(\<exists>p. parse_line l = Inr p) \<longleftrightarrow> line_ok l"
proof -
  have "(\<exists>p. parse_line l = Inr p) \<longleftrightarrow> length (split_sep TAB l) = 2"
    by (auto simp: parse_line_def numeral_2_eq_2 length_Suc_conv split: list.splits)
  then show ?thesis by (simp add: line_ok_def length_split_sep)
qed

lemma parse_line_record:
  "parse_line l = Inr (u, t) \<Longrightarrow> record_of l = (u, tokenize t)"
  by (auto simp: parse_line_def record_of_def split: list.splits)

lemma parse_line_Inl: "parse_line l = Inl e \<Longrightarrow> e = ValueError \<and> \<not> line_ok l"
  using parse_line_ok [of l] by (auto simp: parse_line_def split: list.splits)

lemma parse_line_cases:
  obtains (ok) u t where "parse_line l = Inr (u, t)" "line_ok l" "record_of l = (u, tokenize t)"
  | (bad) "parse_line l = Inl ValueError" "\<not> line_ok l"
proof (cases "parse_line l")
  case (Inl e)
  with parse_line_Inl that show ?thesis by blast
next
  case (Inr p)
  then obtain u t where "parse_line l = Inr (u, t)" by (cases p) auto
  with parse_line_ok parse_line_record that show ?thesis by blast
qed

section \<open>The loop computes the description\<close>

lemma read_records_Cons:
  "i \<le> limit \<Longrightarrow> read_records md limit i (l # ls) =
     (if in_partition md i then [record_of l] else []) @ read_records md limit (Suc i) ls"
  by (simp add: read_records_def Suc_diff_le)

lemma read_records_stop: "limit < i \<Longrightarrow> read_records md limit i ls = []"
  by (simp add: read_records_def)

lemma read_data_loop_eq:
  "i \<le> Suc limit \<Longrightarrow> read_data_loop md limit i ls (us, ts) =
     (if list_all line_ok (take (limit + 2 - i) ls)
      then Inr (us @ map fst (read_records md limit i ls), ts @ map snd (read_records md limit i ls))
      else Inl ValueError)"
proof (induction ls arbitrary: i us ts)
  case Nil
  then show ?case by (simp add: read_records_def)
next
  case (Cons l ls)
  have take_Cons: "take (Suc (Suc limit) - i) (l # ls) = l # take (Suc limit - i) ls"
    using Cons.prems by (simp add: Suc_diff_le)
  show ?case
  proof (cases l rule: parse_line_cases)
    case (ok u t)
    show ?thesis
    proof (cases "limit < i")
      case True
      with Cons.prems have "Suc limit - i = 0" by simp
      with True ok take_Cons show ?thesis by (simp add: read_records_stop)
    next
      case False
      then have IH: "read_data_loop md limit (Suc i) ls (us', ts') =
        (if list_all line_ok (take (Suc limit - i) ls)
         then Inr (us' @ map fst (read_records md limit (Suc i) ls),
                   ts' @ map snd (read_records md limit (Suc i) ls))
         else Inl ValueError)" for us' ts'
        using Cons.IH by simp
      have step: "read_data_loop md limit i (l # ls) (us, ts) =
        (if in_partition md i then read_data_loop md limit (Suc i) ls (us @ [u], ts @ [tokenize t])
         else read_data_loop md limit (Suc i) ls (us, ts))"
        using False ok by (auto simp: in_partition_def)
      from False ok show ?thesis
        by (simp only: step) (simp add: take_Cons IH read_records_Cons)
    qed
  next
    case bad
    with take_Cons show ?thesis by simp
  qed
qed

lemma read_data_Debug_Eval: "read_data Debug limit c = read_data Eval limit c"
proof -
  have "in_partition Debug = in_partition Eval" by (simp add: in_partition_def fun_eq_iff)
  then show ?thesis by (simp add: read_data_def read_data_loop_eq read_records_def)
qed

section \<open>Records, positions and counts\<close>

text \<open>The records of a result: the user names paired with their token lists, none on an error.\<close>

definition records_of :: "(string list \<times> token list list) result \<Rightarrow> (string \<times> token list) list" where
  "records_of r = (case r of Inl _ \<Rightarrow> [] | Inr (us, ts) \<Rightarrow> zip us ts)"

lemma records_of_spec [simp]:
  "records_of (Inr (map fst rs, map snd rs)) = rs"
  by (simp add: records_of_def zip_map_fst_snd)

lemma read_records_filter:
  "read_records md limit 0 ls =
     map (record_of \<circ> snd) (filter (\<lambda>x. in_partition md (fst x)) (enumerate 0 (take (Suc limit) ls)))"
  unfolding read_records_def by (simp add: case_prod_beta')

lemma map_fst_filter_fst: "map fst (filter (\<lambda>x. P (fst x)) xs) = filter P (map fst xs)"
  by (induction xs) auto

lemma length_read_records:
  "length (read_records md limit 0 ls) = length (filter (in_partition md) [0..<min (length ls) (Suc limit)])"
proof -
  let ?E = "enumerate 0 (take (Suc limit) ls)"
  have "length (read_records md limit 0 ls) = length (map fst (filter (\<lambda>x. in_partition md (fst x)) ?E))"
    by (simp add: read_records_filter)
  also have "\<dots> = length (filter (in_partition md) (map fst ?E))"
    by (simp only: map_fst_filter_fst)
  also have "map fst ?E = [0..<min (length ls) (Suc limit)]"
    by (simp add: min.commute)
  finally show ?thesis .
qed

lemma read_records_in_lines:
  assumes "r \<in> set (read_records md limit 0 ls)"
  shows "\<exists>l \<in> set (take (Suc limit) ls). r = record_of l"
proof -
  from assms obtain x where x: "x \<in> set (enumerate 0 (take (Suc limit) ls))" "r = record_of (snd x)"
    by (auto simp: read_records_filter)
  have "snd x \<in> snd ` set (enumerate 0 (take (Suc limit) ls))" using x(1) by (rule imageI)
  also have "snd ` set (enumerate 0 (take (Suc limit) ls)) = set (take (Suc limit) ls)"
    by (simp only: map_snd_enumerate flip: set_map)
  finally have "snd x \<in> set (take (Suc limit) ls)" .
  with x show ?thesis by blast
qed

section \<open>Well-formed records\<close>

text \<open>
  What the reader promises about each record: the user name holds no tab and no newline;
  the token list is \<open><S>\<close>, then the text tokens, then \<open></S>\<close>, and every text token is a
  non-empty run of non-blank bytes without upper-case letters.
\<close>

definition tokens_wf :: "token list \<Rightarrow> bool" where
  "tokens_wf ts \<longleftrightarrow> 2 \<le> length ts \<and> hd ts = BOS \<and> last ts = EOS \<and>
     (\<forall>w \<in> set (butlast (tl ts)). w \<noteq> [] \<and> (\<forall>c \<in> set w. \<not> is_py_space c \<and> \<not> is_upper c))"

definition record_wf :: "string \<times> token list \<Rightarrow> bool" where
  "record_wf r \<longleftrightarrow> TAB \<notin> set (fst r) \<and> NL \<notin> set (fst r) \<and> tokens_wf (snd r)"

lemma tokenize_wf: "tokens_wf (tokenize text)"
proof -
  let ?ws = "split_ws (py_lower text)"
  have "\<forall>w \<in> set ?ws. w \<noteq> [] \<and> (\<forall>c \<in> set w. \<not> is_py_space c \<and> \<not> is_upper c)"
    using split_ws_fields split_ws_lower_fields by blast
  then show ?thesis by (simp add: tokens_wf_def tokenize_def)
qed

lemma line_ok_record:
  assumes "line_ok l"
  obtains u t where "l = u @ TAB # t" "TAB \<notin> set u" "record_of l = (u, tokenize t)"
proof -
  from assms obtain p where "parse_line l = Inr p"
    using parse_line_ok by blast
  then obtain u t where p: "parse_line l = Inr (u, t)" by (cases p) auto
  then have fs: "split_sep TAB l = [u, t]"
    by (auto simp: parse_line_def split: list.splits)
  have "l = u @ TAB # t" using join_split_sep [of TAB l] by (simp add: fs)
  moreover have "TAB \<notin> set u" using split_sep_fields [of u TAB l] by (simp add: fs)
  ultimately show ?thesis using that parse_line_record [OF p] by blast
qed

lemma line_record_wf:
  assumes "l \<in> set (py_lines c)" and "line_ok l"
  shows "record_wf (record_of l)"
proof -
  obtain u t where l: "l = u @ TAB # t" "TAB \<notin> set u" "record_of l = (u, tokenize t)"
    using line_ok_record [OF assms(2)] by blast
  have "NL \<notin> set (butlast l)" using py_lines_NL_last [OF assms(1)] .
  moreover have "set u \<subseteq> set (butlast l)" using l(1) by (simp add: butlast_append)
  ultimately show ?thesis using l tokenize_wf by (auto simp: record_wf_def)
qed

lemma read_data_records:
  "read_data md limit c =
     (if list_all line_ok (take (limit + 2) (py_lines c))
      then Inr (map fst (read_records md limit 0 (py_lines c)), map snd (read_records md limit 0 (py_lines c)))
      else Inl ValueError)"
  by (simp add: read_data_def read_data_loop_eq)

section \<open>The sharded reader of the batcher module\<close>

text \<open>
  \<open>distrib.py\<close> imports \<open>ReadData\<close> from \<open>batcher\<close>, a module that is not among the
  sources; it is modelled from the specification (section 4.2): the same loop as the
  reader above, with an optional \<open>(worker, num_workers)\<close> after the partition guards,
  keeping the line at position \<open>idnum\<close> only when \<open>idnum mod num_workers = worker\<close>.
  Python's \<open>%\<close> by zero raises, which is the \<open>ZeroDivisionError\<close> branch.
\<close>

fun shard_read_loop ::
  "mode \<Rightarrow> nat \<Rightarrow> (nat \<times> nat) option \<Rightarrow> nat \<Rightarrow> string list \<Rightarrow> string list \<times> token list list
     \<Rightarrow> (string list \<times> token list list) result" where
  "shard_read_loop md limit worker idnum [] acc = Inr acc"
| "shard_read_loop md limit worker idnum (line # rest) (usernames, texts) =
     (case parse_line line of
        Inl e \<Rightarrow> Inl e
      | Inr (username, text) \<Rightarrow>
          if limit < idnum then Inr (usernames, texts)
          else if md = Train \<and> idnum mod 10 < 1 then
            shard_read_loop md limit worker (Suc idnum) rest (usernames, texts)
          else if md \<noteq> Train \<and> idnum mod 10 \<ge> 1 then
            shard_read_loop md limit worker (Suc idnum) rest (usernames, texts)
          else (case worker of
                  None \<Rightarrow> shard_read_loop md limit worker (Suc idnum) rest
                            (usernames @ [username], texts @ [tokenize text])
                | Some (w, n) \<Rightarrow>
                    if n = 0 then Inl ZeroDivisionError
                    else if idnum mod n \<noteq> w then
                      shard_read_loop md limit worker (Suc idnum) rest (usernames, texts)
                    else shard_read_loop md limit worker (Suc idnum) rest
                           (usernames @ [username], texts @ [tokenize text])))"

definition shard_read_data ::
  "mode \<Rightarrow> nat \<Rightarrow> (nat \<times> nat) option \<Rightarrow> string \<Rightarrow> (string list \<times> token list list) result" where
  "shard_read_data md limit worker content = shard_read_loop md limit worker 0 (py_lines content) ([], [])"

definition shard_ok :: "(nat \<times> nat) option \<Rightarrow> nat \<Rightarrow> bool" where
  "shard_ok worker i \<longleftrightarrow> (case worker of None \<Rightarrow> True | Some (w, n) \<Rightarrow> i mod n = w)"

definition shard_records ::
  "mode \<Rightarrow> nat \<Rightarrow> (nat \<times> nat) option \<Rightarrow> nat \<Rightarrow> string list \<Rightarrow> (string \<times> token list) list" where
  "shard_records md limit worker i ls =
     map (record_of \<circ> snd)
       (filter (\<lambda>(j, _). in_partition md j \<and> shard_ok worker j) (enumerate i (take (Suc limit - i) ls)))"

definition valid_worker :: "(nat \<times> nat) option \<Rightarrow> bool" where
  "valid_worker worker \<longleftrightarrow> (case worker of None \<Rightarrow> True | Some (w, n) \<Rightarrow> 0 < n)"

lemma shard_records_Cons:
  "i \<le> limit \<Longrightarrow> shard_records md limit worker i (l # ls) =
     (if in_partition md i \<and> shard_ok worker i then [record_of l] else []) @
     shard_records md limit worker (Suc i) ls"
  by (simp add: shard_records_def Suc_diff_le)

lemma shard_read_loop_eq:
  assumes "valid_worker worker"
  shows "i \<le> Suc limit \<Longrightarrow> shard_read_loop md limit worker i ls (us, ts) =
     (if list_all line_ok (take (limit + 2 - i) ls)
      then Inr (us @ map fst (shard_records md limit worker i ls),
                ts @ map snd (shard_records md limit worker i ls))
      else Inl ValueError)"
proof (induction ls arbitrary: i us ts)
  case Nil
  then show ?case by (simp add: shard_records_def)
next
  case (Cons l ls)
  have take_Cons: "take (Suc (Suc limit) - i) (l # ls) = l # take (Suc limit - i) ls"
    using Cons.prems by (simp add: Suc_diff_le)
  show ?case
  proof (cases l rule: parse_line_cases)
    case (ok u t)
    show ?thesis
    proof (cases "limit < i")
      case True
      with Cons.prems have "Suc limit - i = 0" by simp
      with True ok take_Cons show ?thesis by (simp add: shard_records_def)
    next
      case False
      then have IH: "shard_read_loop md limit worker (Suc i) ls (us', ts') =
        (if list_all line_ok (take (Suc limit - i) ls)
         then Inr (us' @ map fst (shard_records md limit worker (Suc i) ls),
                   ts' @ map snd (shard_records md limit worker (Suc i) ls))
         else Inl ValueError)" for us' ts'
        using Cons.IH by simp
      have step: "shard_read_loop md limit worker i (l # ls) (us, ts) =
        (if in_partition md i \<and> shard_ok worker i
         then shard_read_loop md limit worker (Suc i) ls (us @ [u], ts @ [tokenize t])
         else shard_read_loop md limit worker (Suc i) ls (us, ts))"
        using False ok assms
        by (auto simp: in_partition_def shard_ok_def valid_worker_def split: option.splits)
      from False ok show ?thesis
        by (simp only: step) (simp add: take_Cons IH shard_records_Cons)
    qed
  next
    case bad
    with take_Cons show ?thesis by simp
  qed
qed

lemma shard_read_data_records:
  "valid_worker worker \<Longrightarrow> shard_read_data md limit worker c =
     (if list_all line_ok (take (limit + 2) (py_lines c))
      then Inr (map fst (shard_records md limit worker 0 (py_lines c)),
                map snd (shard_records md limit worker 0 (py_lines c)))
      else Inl ValueError)"
  by (simp add: shard_read_data_def shard_read_loop_eq)

lemma shard_records_None: "shard_records md limit None i ls = read_records md limit i ls"
  by (simp add: shard_records_def read_records_def shard_ok_def)

lemma shard_records_Some:
  "shard_records md limit (Some (w, n)) 0 ls =
     map (record_of \<circ> snd)
       (filter (\<lambda>x. fst x mod n = w) (filter (\<lambda>x. in_partition md (fst x)) (enumerate 0 (take (Suc limit) ls))))"
  by (simp add: shard_records_def shard_ok_def case_prod_beta' conj_commute)

lemma shard_records_train_empty:
  assumes "10 dvd n" and "w mod 10 = 0"
  shows "shard_records Train limit (Some (w, n)) 0 ls = []"
proof -
  have nz: "j mod 10 = 0" if "j mod n = w" for j
  proof -
    have "j mod n mod 10 = j mod 10" using assms(1) by (rule mod_mod_cancel)
    with that assms(2) show ?thesis by simp
  qed
  show ?thesis
    unfolding shard_records_def
    by (auto simp: in_partition_def shard_ok_def nz intro!: filter_False)
qed

lemma length_shard_records:
  "length (shard_records md limit worker 0 ls) =
     length (filter (\<lambda>j. in_partition md j \<and> shard_ok worker j) [0..<min (length ls) (Suc limit)])"
proof -
  let ?E = "enumerate 0 (take (Suc limit) ls)"
  have "length (shard_records md limit worker 0 ls) =
        length (map fst (filter (\<lambda>x. in_partition md (fst x) \<and> shard_ok worker (fst x)) ?E))"
    by (simp add: shard_records_def case_prod_beta')
  also have "\<dots> = length (filter (\<lambda>j. in_partition md j \<and> shard_ok worker j) (map fst ?E))"
    by (simp only: map_fst_filter_fst [of "\<lambda>j. in_partition md j \<and> shard_ok worker j"])
  also have "map fst ?E = [0..<min (length ls) (Suc limit)]"
    by (simp add: min.commute)
  finally show ?thesis .
qed

lemma records_of_read_data:
  "records_of (read_data md limit c) =
     (if list_all line_ok (take (limit + 2) (py_lines c)) then read_records md limit 0 (py_lines c) else [])"
  unfolding read_data_records records_of_def by (simp add: zip_map_fst_snd)

lemma records_of_shard_read_data:
  "valid_worker worker \<Longrightarrow> records_of (shard_read_data md limit worker c) =
     (if list_all line_ok (take (limit + 2) (py_lines c)) then shard_records md limit worker 0 (py_lines c) else [])"
  unfolding shard_read_data_records records_of_def by (simp add: zip_map_fst_snd)

text \<open>A sample corpus for the witnesses: \<open>k\<close> lines \<open>u<TAB>w\<close>, each newline-terminated.\<close>

definition sample_corpus :: "nat \<Rightarrow> string" where
  "sample_corpus k = concat (map (\<lambda>l. l @ [NL]) (replicate k (''u'' @ TAB # ''w'')))"

lemma py_lines_sample_corpus:
  "py_lines (sample_corpus k) = replicate k (''u'' @ TAB # ''w'' @ [NL])"
proof -
  have "py_lines (concat (map (\<lambda>l. l @ [NL]) (replicate k (''u'' @ TAB # ''w'')))) =
        map (\<lambda>l. l @ [NL]) (replicate k (''u'' @ TAB # ''w''))"
    by (rule py_lines_terminated) (auto simp: NL_def TAB_def)
  then show ?thesis by (simp add: sample_corpus_def)
qed

lemma sample_lines_ok: "list_all line_ok (take m (py_lines (sample_corpus k)))"
  by (auto simp: py_lines_sample_corpus line_ok_def TAB_def NL_def list_all_iff dest!: in_set_takeD)

section \<open>Properties of the reader\<close>

text \<open>
  C1. \<open>ReadData\<close> computes its declarative description: it raises \<open>ValueError\<close> iff one of
  the first \<open>limit + 2\<close> lines (the ones it splits) lacks exactly one tab, and otherwise
  returns, in file order, the user names and token lists of the lines at positions
  \<open>0..limit\<close> that belong to the requested partition.
\<close>

theorem read_data_eq_spec: "read_data md limit content = read_spec md limit (py_lines content)"
  by (simp add: read_data_def read_spec_def read_data_loop_eq)

text \<open>
  C2. The split is a partition: for a well-formed corpus, the records of a train run and
  of an eval run together are exactly the records of the lines read, each once.
\<close>

theorem train_eval_partition:
  assumes "list_all line_ok (take (limit + 2) (py_lines c))"
  shows "mset (records_of (read_data Train limit c)) + mset (records_of (read_data Eval limit c)) =
         mset (map record_of (take (Suc limit) (py_lines c)))"
proof -
  let ?E = "enumerate 0 (take (Suc limit) (py_lines c))"
  have eval: "in_partition Eval j \<longleftrightarrow> \<not> in_partition Train j" for j
    by (simp add: in_partition_def)
  have "mset (map (record_of \<circ> snd) (filter (\<lambda>x. in_partition Train (fst x)) ?E)) +
        mset (map (record_of \<circ> snd) (filter (\<lambda>x. \<not> in_partition Train (fst x)) ?E)) =
        mset (map (record_of \<circ> snd) ?E)"
    by (rule mset_map_filter_partition)
  also have "map (record_of \<circ> snd) ?E = map record_of (take (Suc limit) (py_lines c))"
    by (simp flip: map_map)
  finally have part: "mset (map (record_of \<circ> snd) (filter (\<lambda>x. in_partition Train (fst x)) ?E)) +
        mset (map (record_of \<circ> snd) (filter (\<lambda>x. \<not> in_partition Train (fst x)) ?E)) =
        mset (map record_of (take (Suc limit) (py_lines c)))" .
  have tr: "records_of (read_data Train limit c) =
            map (record_of \<circ> snd) (filter (\<lambda>x. in_partition Train (fst x)) ?E)"
    using assms by (simp add: records_of_read_data read_records_filter)
  have ev: "records_of (read_data Eval limit c) =
            map (record_of \<circ> snd) (filter (\<lambda>x. \<not> in_partition Train (fst x)) ?E)"
    using assms by (simp add: records_of_read_data read_records_filter eval)
  show ?thesis by (simp only: tr ev part)
qed

theorem train_eval_partition_witness:
  "list_all line_ok (take (default_limit + 2) (py_lines (sample_corpus 3))) \<and>
   mset (records_of (read_data Train default_limit (sample_corpus 3))) +
   mset (records_of (read_data Eval default_limit (sample_corpus 3))) =
   mset (map record_of (take (Suc default_limit) (py_lines (sample_corpus 3))))"
  using sample_lines_ok train_eval_partition [OF sample_lines_ok] by blast

text \<open>The shards of workers \<open>0..n-1\<close> sum to the unsharded read (shared by C3 and the cluster).\<close>

lemma shard_read_data_sum:
  assumes "0 < n"
  shows "(\<Sum>w<n. mset (records_of (shard_read_data md limit (Some (w, n)) c))) =
         mset (records_of (read_data md limit c))"
proof -
  let ?ok = "list_all line_ok (take (limit + 2) (py_lines c))"
  let ?F = "filter (\<lambda>x. in_partition md (fst x)) (enumerate 0 (take (Suc limit) (py_lines c)))"
  have valid: "valid_worker (Some (w, n))" for w
    using assms by (simp add: valid_worker_def)
  have shard: "records_of (shard_read_data md limit (Some (w, n)) c) =
      (if ?ok then map (record_of \<circ> snd) (filter (\<lambda>x. fst x mod n = w) ?F) else [])" for w
    by (simp only: records_of_shard_read_data [OF valid] shard_records_Some)
  have whole: "records_of (read_data md limit c) = (if ?ok then map (record_of \<circ> snd) ?F else [])"
    by (simp only: records_of_read_data read_records_filter)
  show ?thesis
  proof (cases ?ok)
    case True
    have "(\<Sum>w<n. mset (map (record_of \<circ> snd) (filter (\<lambda>x. fst x mod n = w) ?F))) =
          mset (map (record_of \<circ> snd) ?F)"
      using assms by (rule sum_mset_mod_filter)
    with True show ?thesis by (simp only: shard whole if_True)
  next
    case False
    then show ?thesis by (simp add: shard whole)
  qed
qed

text \<open>
  C3. Worker sharding (the batcher's reader, modelled from the specification) is a
  partition of the partition: for any number \<open>n \<ge> 1\<close> of workers, the shards of workers
  \<open>0..n-1\<close> together hold exactly the records of the unsharded read, none twice.
\<close>

theorem shards_partition:
  assumes "0 < n"
  shows "(\<Sum>w<n. mset (records_of (shard_read_data md limit (Some (w, n)) c))) =
         mset (records_of (read_data md limit c))"
  using assms by (rule shard_read_data_sum)

theorem shards_partition_witness:
  "0 < (3::nat) \<and>
   (\<Sum>w<3. mset (records_of (shard_read_data Train default_limit (Some (w, 3)) (sample_corpus 12)))) =
   mset (records_of (read_data Train default_limit (sample_corpus 12)))"
  using shards_partition [of 3 Train default_limit "sample_corpus 12"] by simp

text \<open>
  C4. Every record \<open>ReadData\<close> returns is well formed: as many user names as token lists;
  no user name holds a tab or a newline; every token list is \<open><S>\<close>, the text tokens,
  \<open></S>\<close>, and every text token is a non-empty run of non-blank, non-upper-case bytes.
\<close>

theorem read_data_records_wf:
  assumes "read_data md limit c = Inr (us, ts)"
  shows "length us = length ts \<and> (\<forall>r \<in> set (zip us ts). record_wf r)"
proof -
  let ?R = "read_records md limit 0 (py_lines c)"
  have ok: "list_all line_ok (take (limit + 2) (py_lines c))"
    and us: "us = map fst ?R" and ts: "ts = map snd ?R"
    using assms by (simp_all add: read_data_records split: if_splits)
  have "record_wf r" if r: "r \<in> set ?R" for r
  proof -
    obtain l where l: "l \<in> set (take (Suc limit) (py_lines c))" "r = record_of l"
      using read_records_in_lines [OF r] by blast
    have "set (take (Suc limit) (py_lines c)) \<subseteq> set (take (limit + 2) (py_lines c))"
      by (simp add: set_take_subset_set_take)
    with ok l have "line_ok l" by (auto simp: list_all_iff)
    moreover have "l \<in> set (py_lines c)" using l(1) by (rule in_set_takeD)
    ultimately show ?thesis using l(2) line_record_wf by blast
  qed
  then show ?thesis by (simp add: us ts zip_map_fst_snd)
qed

theorem read_data_records_wf_witness:
  "read_data Eval 5 (sample_corpus 3) = Inr ([''u''], [tokenize (''w'' @ [NL])]) \<and>
   length [''u''] = length [tokenize (''w'' @ [NL])] \<and>
   record_wf (''u'', tokenize (''w'' @ [NL]))"
proof -
  have h: "read_data Eval 5 (sample_corpus 3) = Inr ([''u''], [tokenize (''w'' @ [NL])])"
    by code_simp
  show ?thesis using h read_data_records_wf [OF h] by simp
qed

text \<open>
  C5. Sizes of the split: of the \<open>k = min(lines, limit + 1)\<close> positions read, the eval
  partition holds \<open>ceil(k / 10)\<close> (positions 0, 10, 20, ...) and the train partition the
  other \<open>k - ceil(k / 10)\<close>.
\<close>

theorem partition_sizes:
  assumes "list_all line_ok (take (limit + 2) (py_lines c))"
  shows "length (records_of (read_data Eval limit c)) =
           min (length (py_lines c)) (Suc limit) div 10 +
           (if min (length (py_lines c)) (Suc limit) mod 10 = 0 then 0 else 1) \<and>
         length (records_of (read_data Train limit c)) + length (records_of (read_data Eval limit c)) =
           min (length (py_lines c)) (Suc limit)"
proof -
  let ?k = "min (length (py_lines c)) (Suc limit)"
  have ev: "in_partition Eval = (\<lambda>i. i mod 10 = 0)" and tr: "in_partition Train = (\<lambda>i. \<not> i mod 10 = 0)"
    by (simp_all add: in_partition_def fun_eq_iff)
  have "length (filter (\<lambda>i. \<not> i mod 10 = 0) [0..<?k]) + length (filter (\<lambda>i. i mod 10 = 0) [0..<?k]) = ?k"
    using sum_length_filter_compl [of "\<lambda>i. i mod 10 = 0" "[0..<?k]"] by simp
  with assms show ?thesis
    by (simp add: records_of_read_data length_read_records ev tr count_mod_zero)
qed

theorem partition_sizes_witness:
  "list_all line_ok (take (default_limit + 2) (py_lines (sample_corpus 30))) \<and>
   length (records_of (read_data Eval default_limit (sample_corpus 30))) = 3 \<and>
   length (records_of (read_data Train default_limit (sample_corpus 30))) = 27"
proof -
  have ok: "list_all line_ok (take (default_limit + 2) (py_lines (sample_corpus 30)))"
    by (rule sample_lines_ok)
  have len: "min (length (py_lines (sample_corpus 30))) (Suc default_limit) = 30"
    by (simp add: py_lines_sample_corpus default_limit_def)
  show ?thesis using ok partition_sizes [OF ok] unfolding len by simp
qed

text \<open>
  C6. Positional sharding starves a worker: when the number of workers is a multiple of
  10, every worker whose index is a multiple of 10 (worker 0 among them) gets an empty
  train shard, since its positions are all eval positions.
\<close>

theorem train_shard_empty:
  assumes "0 < n" and "10 dvd n" and "w mod 10 = 0"
  shows "records_of (shard_read_data Train limit (Some (w, n)) c) = []"
proof -
  have "valid_worker (Some (w, n))" using assms(1) by (simp add: valid_worker_def)
  then show ?thesis
    by (simp add: records_of_shard_read_data shard_records_train_empty [OF assms(2,3)])
qed

theorem train_shard_empty_witness:
  "0 < (10::nat) \<and> 10 dvd (10::nat) \<and> (0::nat) mod 10 = 0 \<and>
   records_of (shard_read_data Train default_limit (Some (0, 10)) (sample_corpus 30)) = [] \<and>
   records_of (read_data Train default_limit (sample_corpus 30)) \<noteq> []"
proof -
  have "records_of (shard_read_data Train default_limit (Some (0, 10)) (sample_corpus 30)) = []"
    by (rule train_shard_empty) simp_all
  moreover have "length (records_of (read_data Train default_limit (sample_corpus 30))) = 27"
  proof -
    have tr: "in_partition Train = (\<lambda>i. \<not> i mod 10 = 0)" by (simp add: in_partition_def fun_eq_iff)
    have "length (filter (\<lambda>i. \<not> i mod 10 = 0) [0..<30]) + length (filter (\<lambda>i. i mod 10 = 0) [0..<(30::nat)]) = 30"
      using sum_length_filter_compl [of "\<lambda>i. i mod 10 = 0" "[0..<30]"] by simp
    then have "length (filter (in_partition Train) [0..<30]) = 27" by (simp add: tr count_mod_zero)
    moreover have "list_all line_ok (take (default_limit + 2) (py_lines (sample_corpus 30)))" by (rule sample_lines_ok)
    ultimately show ?thesis
      by (simp add: records_of_read_data length_read_records py_lines_sample_corpus default_limit_def)
  qed
  ultimately show ?thesis by auto
qed

end
