(* ===== verification/Vocab.thy ===== *)
theory Vocab
  imports Calm_Prelude "HOL-Library.List_Lexorder" "HOL-Library.Char_ord" "HOL-Library.Product_Lexorder"
begin

text \<open>
  The vocabulary, \<open>vocab.Vocab\<close>, which both scripts import from a module that is not among
  the sources. It is modelled from the specification (section 4.1): \<open>MakeFromData\<close>
  counts the tokens of all lines, keeps those with count at least \<open>min_count\<close>, orders
  them by descending count with ties broken by the token, and puts the unknown symbol
  \<open><UNK>\<close> at index 0; \<open>v[w]\<close> is the index of \<open>w\<close> or 0; \<open>len(v)\<close> counts the unknown
  symbol; \<open>v.idx_to_word[i]\<close> raises \<open>KeyError\<close> outside \<open>0..len(v)-1\<close>. \<open>Save\<close> writes
  the index-to-word list one token per line and \<open>Load\<close> reads it back, raising on a
  missing file and refusing a blob that is not a saved vocabulary. The vocabulary is a
  record of the two dictionaries of the Python object.
\<close>

section \<open>Model\<close>

record vocab =
  idx_to_word :: "token list"
  word_to_idx :: "token \<rightharpoonup> nat"

definition UNK :: token where "UNK = ''<UNK>''"

text \<open>\<open>collections.Counter\<close> updated with every line, as a map from token to count.\<close>

fun count_into :: "(token \<rightharpoonup> nat) \<Rightarrow> token list \<Rightarrow> (token \<rightharpoonup> nat)" where
  "count_into m [] = m"
| "count_into m (w # ws) = count_into (m(w \<mapsto> (case m w of None \<Rightarrow> 1 | Some c \<Rightarrow> Suc c))) ws"

definition token_counts :: "token list list \<Rightarrow> (token \<rightharpoonup> nat)" where
  "token_counts lines = count_into Map.empty (concat lines)"

definition count_of :: "(token \<rightharpoonup> nat) \<Rightarrow> token \<Rightarrow> nat" where
  "count_of cnt w = (case cnt w of None \<Rightarrow> 0 | Some c \<Rightarrow> c)"

text \<open>Descending count, then the token: the key sorted ascending.\<close>

definition freq_key :: "(token \<rightharpoonup> nat) \<Rightarrow> token \<Rightarrow> int \<times> token" where
  "freq_key cnt w = (- int (count_of cnt w), w)"

definition vocab_of_words :: "token list \<Rightarrow> vocab" where
  "vocab_of_words ws = \<lparr>idx_to_word = ws, word_to_idx = map_of (zip ws [0..<length ws])\<rparr>"

definition make_from_data :: "token list list \<Rightarrow> nat \<Rightarrow> vocab" where
  "make_from_data lines min_count =
     (let cnt = token_counts lines;
          kept = filter (\<lambda>w. min_count \<le> count_of cnt w \<and> w \<noteq> UNK) (remdups (concat lines))
      in vocab_of_words (UNK # sort_key (freq_key cnt) kept))"

text \<open>\<open>v[w]\<close>: never fails, the unknown index 0 for an absent token.\<close>

definition vocab_lookup :: "vocab \<Rightarrow> token \<Rightarrow> nat" where
  "vocab_lookup v w = (case word_to_idx v w of Some i \<Rightarrow> i | None \<Rightarrow> 0)"

definition vocab_size :: "vocab \<Rightarrow> nat" where
  "vocab_size v = length (idx_to_word v)"

text \<open>\<open>v.idx_to_word[i]\<close>: a dictionary read that raises outside the indices.\<close>

definition vocab_word :: "vocab \<Rightarrow> nat \<Rightarrow> token result" where
  "vocab_word v i = (if i < length (idx_to_word v) then Inr (idx_to_word v ! i) else Inl KeyError)"

text \<open>
  \<open>Save\<close>: one token per line; \<open>Load\<close>: \<open>IOError\<close> for a missing file (\<open>None\<close>), the
  vocabulary of the lines when the blob is a non-empty sequence of newline-terminated,
  pairwise distinct lines starting with the unknown symbol, \<open>CorruptFile\<close> otherwise.
\<close>

definition vocab_save :: "vocab \<Rightarrow> string" where
  "vocab_save v = concat (map (\<lambda>w. w @ [NL]) (idx_to_word v))"

definition vocab_load :: "string option \<Rightarrow> vocab result" where
  "vocab_load f =
     (case f of
        None \<Rightarrow> Inl IOError
      | Some blob \<Rightarrow>
          (let ls = py_lines blob; ws = map butlast ls in
           if ls \<noteq> [] \<and> list_all (\<lambda>l. last l = NL) ls \<and> distinct ws \<and> hd ws = UNK
           then Inr (vocab_of_words ws) else Inl CorruptFile))"

text \<open>
  The invariant of a vocabulary: a non-empty list of distinct tokens with the unknown
  symbol first, and the word-to-index dictionary its inverse.
\<close>

definition vocab_wf :: "vocab \<Rightarrow> bool" where
  "vocab_wf v \<longleftrightarrow> idx_to_word v \<noteq> [] \<and> hd (idx_to_word v) = UNK \<and> distinct (idx_to_word v) \<and>
     word_to_idx v = map_of (zip (idx_to_word v) [0..<length (idx_to_word v)])"

section \<open>Counting\<close>

lemma count_into_eq:
  "count_into m ws w =
     (if w \<in> set ws then Some (count_of m w + count_list ws w) else m w)"
  by (induction ws arbitrary: m) (auto simp: count_of_def split: option.splits)

lemma count_of_token_counts [simp]:
  "count_of (token_counts lines) w = count_list (concat lines) w"
proof -
  have "w \<notin> set ws \<Longrightarrow> count_list ws w = 0" for ws :: "token list"
    by (induction ws) auto
  then show ?thesis
    by (auto simp: token_counts_def count_into_eq count_of_def)
qed

section \<open>The dictionaries\<close>

lemma in_set_zip_upt:
  "(w, i) \<in> set (zip ws [0..<length ws]) \<longleftrightarrow> i < length ws \<and> ws ! i = w"
  by (auto simp: in_set_zip)

lemma map_of_zip_upt_nth:
  assumes "distinct ws" and "i < length ws"
  shows "map_of (zip ws [0..<length ws]) (ws ! i) = Some i"
proof (rule map_of_is_SomeI)
  show "distinct (map fst (zip ws [0..<length ws]))" using assms(1) by simp
  show "(ws ! i, i) \<in> set (zip ws [0..<length ws])" using assms(2) by (simp add: in_set_zip_upt)
qed

lemma map_of_zip_upt_Some:
  "map_of (zip ws [0..<length ws]) w = Some i \<Longrightarrow> i < length ws \<and> ws ! i = w"
  by (drule map_of_SomeD) (simp add: in_set_zip_upt)

lemma map_of_zip_upt_None:
  "map_of (zip ws [0..<length ws]) w = None \<longleftrightarrow> w \<notin> set ws"
proof -
  have "fst ` set (zip ws [0..<length ws]) = set ws"
    by (simp flip: set_map)
  then show ?thesis by (simp add: map_of_eq_None_iff)
qed

lemma vocab_wf_vocab_of_words:
  "ws \<noteq> [] \<Longrightarrow> hd ws = UNK \<Longrightarrow> distinct ws \<Longrightarrow> vocab_wf (vocab_of_words ws)"
  by (simp add: vocab_wf_def vocab_of_words_def)

lemma vocab_wf_eq: "vocab_wf v \<Longrightarrow> v = vocab_of_words (idx_to_word v)"
  by (simp add: vocab_wf_def vocab_of_words_def)

lemma vocab_lookup_cases:
  assumes "vocab_wf v"
  obtains (found) "w \<in> set (idx_to_word v)" "vocab_lookup v w < vocab_size v"
      "idx_to_word v ! vocab_lookup v w = w"
    | (unknown) "w \<notin> set (idx_to_word v)" "vocab_lookup v w = 0"
proof (cases "word_to_idx v w")
  case None
  then have "map_of (zip (idx_to_word v) [0..<length (idx_to_word v)]) w = None"
    using assms by (simp add: vocab_wf_def)
  then have "w \<notin> set (idx_to_word v)" by (simp add: map_of_zip_upt_None)
  moreover from None have "vocab_lookup v w = 0" by (simp add: vocab_lookup_def)
  ultimately show ?thesis by (rule that(2))
next
  case (Some i)
  then have "map_of (zip (idx_to_word v) [0..<length (idx_to_word v)]) w = Some i"
    using assms by (simp add: vocab_wf_def)
  then have i: "i < length (idx_to_word v) \<and> idx_to_word v ! i = w" by (rule map_of_zip_upt_Some)
  then have "w \<in> set (idx_to_word v)" by (metis nth_mem)
  with i Some show ?thesis by (intro that(1)) (simp_all add: vocab_lookup_def vocab_size_def)
qed

lemma vocab_lookup_bound:
  "vocab_wf v \<Longrightarrow> vocab_lookup v w < vocab_size v"
  by (cases rule: vocab_lookup_cases [of v w]) (auto simp: vocab_wf_def vocab_size_def)

lemma vocab_lookup_word:
  "vocab_wf v \<Longrightarrow> i < vocab_size v \<Longrightarrow> vocab_lookup v (idx_to_word v ! i) = i"
  by (simp add: vocab_wf_def vocab_lookup_def vocab_size_def map_of_zip_upt_nth)

lemma vocab_lookup_in:
  "vocab_wf v \<Longrightarrow> w \<in> set (idx_to_word v) \<Longrightarrow> idx_to_word v ! vocab_lookup v w = w"
  by (cases rule: vocab_lookup_cases [of v w]) auto

lemma vocab_lookup_notin:
  "vocab_wf v \<Longrightarrow> w \<notin> set (idx_to_word v) \<Longrightarrow> vocab_lookup v w = 0"
  by (cases rule: vocab_lookup_cases [of v w]) auto

lemma vocab_lookup_UNK: "vocab_wf v \<Longrightarrow> vocab_lookup v UNK = 0"
proof -
  assume wf: "vocab_wf v"
  then obtain ws where ws: "idx_to_word v = UNK # ws"
    by (cases "idx_to_word v") (auto simp: vocab_wf_def)
  have "0 < vocab_size v" by (simp add: vocab_size_def ws)
  with wf have "vocab_lookup v (idx_to_word v ! 0) = 0" by (rule vocab_lookup_word)
  then show ?thesis by (simp add: ws)
qed

lemma vocab_size_pos: "vocab_wf v \<Longrightarrow> 0 < vocab_size v"
  by (simp add: vocab_wf_def vocab_size_def)

lemma vocab_word_ok:
  "i < vocab_size v \<Longrightarrow> vocab_word v i = Inr (idx_to_word v ! i)"
  by (simp add: vocab_word_def vocab_size_def)

section \<open>Built vocabularies\<close>

definition kept_tokens :: "token list list \<Rightarrow> nat \<Rightarrow> token list" where
  "kept_tokens lines k = filter (\<lambda>w. k \<le> count_list (concat lines) w \<and> w \<noteq> UNK) (remdups (concat lines))"

lemma idx_to_word_make:
  "idx_to_word (make_from_data lines k) = UNK # sort_key (freq_key (token_counts lines)) (kept_tokens lines k)"
  by (simp add: make_from_data_def vocab_of_words_def kept_tokens_def Let_def)

lemma set_kept_tokens:
  "set (kept_tokens lines k) = {w \<in> set (concat lines). w \<noteq> UNK \<and> k \<le> count_list (concat lines) w}"
  by (auto simp: kept_tokens_def)

lemma distinct_kept_tokens: "distinct (kept_tokens lines k)"
  by (simp add: kept_tokens_def)

lemma make_from_data_wf: "vocab_wf (make_from_data lines k)"
proof -
  have "UNK \<notin> set (kept_tokens lines k)" by (simp add: set_kept_tokens)
  then show ?thesis
    by (simp add: make_from_data_def vocab_wf_vocab_of_words kept_tokens_def Let_def)
qed

lemma set_idx_to_word_make:
  "set (idx_to_word (make_from_data lines k)) = insert UNK (set (kept_tokens lines k))"
  by (simp add: idx_to_word_make)

text \<open>Only the tokens at or above the threshold get an index of their own.\<close>

lemma make_from_data_lookup:
  "vocab_lookup (make_from_data lines k) w \<noteq> 0 \<longleftrightarrow>
     w \<noteq> UNK \<and> w \<in> set (concat lines) \<and> k \<le> count_list (concat lines) w"
proof (cases "w \<in> set (idx_to_word (make_from_data lines k))")
  case True
  show ?thesis
  proof (cases "w = UNK")
    case True
    then show ?thesis using vocab_lookup_UNK [OF make_from_data_wf] by simp
  next
    case False
    have hd0: "idx_to_word (make_from_data lines k) ! 0 = UNK" by (simp add: idx_to_word_make)
    have look: "idx_to_word (make_from_data lines k) ! vocab_lookup (make_from_data lines k) w = w"
      using make_from_data_wf True by (rule vocab_lookup_in)
    have "vocab_lookup (make_from_data lines k) w \<noteq> 0"
    proof
      assume "vocab_lookup (make_from_data lines k) w = 0"
      with look hd0 have "w = UNK" by simp
      with False show False by simp
    qed
    moreover from True False have "w \<in> set (kept_tokens lines k)" by (simp add: set_idx_to_word_make)
    ultimately show ?thesis by (simp add: set_kept_tokens)
  qed
next
  case False
  with make_from_data_wf have "vocab_lookup (make_from_data lines k) w = 0" by (rule vocab_lookup_notin)
  with False show ?thesis by (auto simp: set_idx_to_word_make set_kept_tokens)
qed

lemma make_from_data_size:
  "vocab_size (make_from_data lines k) =
     Suc (card {w \<in> set (concat lines). w \<noteq> UNK \<and> k \<le> count_list (concat lines) w})"
proof -
  have "length (kept_tokens lines k) = card (set (kept_tokens lines k))"
    by (simp add: distinct_card distinct_kept_tokens)
  then show ?thesis by (simp add: vocab_size_def idx_to_word_make set_kept_tokens)
qed

text \<open>Indices after the unknown symbol run by descending count, ties by the token.\<close>

lemma make_from_data_sorted:
  "sorted (map (freq_key (token_counts lines)) (tl (idx_to_word (make_from_data lines k))))"
  by (simp add: idx_to_word_make)

section \<open>Determinism\<close>

lemma inj_freq_key: "inj_on (freq_key cnt) A"
  by (auto simp: inj_on_def freq_key_def)

lemma sort_key_unique:
  assumes "inj_on f (set xs \<union> set ys)" and "set xs = set ys" and "distinct xs" and "distinct ys"
  shows "sort_key f xs = sort_key f ys"
proof -
  let ?a = "sort_key f xs" and ?b = "sort_key f ys"
  have inj: "inj_on f (set ?a \<union> set ?b)" using assms(1) by simp
  have da: "distinct (map f ?a)"
    using assms(1,3) by (simp add: distinct_map inj_on_subset [OF _ Un_upper1])
  have db: "distinct (map f ?b)"
    using assms(1,4) by (simp add: distinct_map inj_on_subset [OF _ Un_upper2])
  have m: "map f ?a = map f ?b"
    by (rule sorted_distinct_set_unique) (use da db assms(2) in simp_all)
  from m inj show ?thesis by (rule map_inj_on)
qed

lemma token_counts_mset:
  "mset (concat l1) = mset (concat l2) \<Longrightarrow> token_counts l1 = token_counts l2"
proof
  fix w
  assume m: "mset (concat l1) = mset (concat l2)"
  then have s: "set (concat l1) = set (concat l2)" by (metis set_mset_mset)
  have "count_list (concat l1) w = count_list (concat l2) w"
    using m by (simp add: count_mset [symmetric])
  with s show "token_counts l1 w = token_counts l2 w"
    by (simp add: token_counts_def count_into_eq count_of_def)
qed

text \<open>The vocabulary depends on the multiset of tokens only, not on the order of the corpus.\<close>

lemma make_from_data_mset:
  assumes "mset (concat l1) = mset (concat l2)"
  shows "make_from_data l1 k = make_from_data l2 k"
proof -
  have cnt: "token_counts l1 = token_counts l2" using assms by (rule token_counts_mset)
  have "count_list (concat l1) w = count_list (concat l2) w" for w
    using assms by (simp add: count_mset [symmetric])
  moreover have "set (concat l1) = set (concat l2)" using assms by (metis set_mset_mset)
  ultimately have "set (kept_tokens l1 k) = set (kept_tokens l2 k)"
    by (simp add: set_kept_tokens)
  then have "sort_key (freq_key (token_counts l1)) (kept_tokens l1 k) =
             sort_key (freq_key (token_counts l1)) (kept_tokens l2 k)"
    by (intro sort_key_unique inj_freq_key distinct_kept_tokens)
  then have idx: "idx_to_word (make_from_data l1 k) = idx_to_word (make_from_data l2 k)"
    by (simp add: idx_to_word_make cnt)
  have "make_from_data l1 k = vocab_of_words (idx_to_word (make_from_data l1 k))"
    by (rule vocab_wf_eq [OF make_from_data_wf])
  also have "\<dots> = vocab_of_words (idx_to_word (make_from_data l2 k))"
    by (simp only: idx)
  also have "\<dots> = make_from_data l2 k"
    by (rule vocab_wf_eq [OF make_from_data_wf, symmetric])
  finally show ?thesis .
qed

section \<open>Save and load\<close>

lemma vocab_load_save:
  assumes "vocab_wf v" and "list_all (\<lambda>w. NL \<notin> set w) (idx_to_word v)"
  shows "vocab_load (Some (vocab_save v)) = Inr v"
proof -
  let ?ws = "idx_to_word v"
  have lines: "py_lines (vocab_save v) = map (\<lambda>w. w @ [NL]) ?ws"
    unfolding vocab_save_def by (rule py_lines_terminated) (use assms(2) in \<open>simp add: list_all_iff\<close>)
  have "map butlast (map (\<lambda>w. w @ [NL]) ws) = ws" for ws :: "token list"
    by (induction ws) simp_all
  with assms(1) show ?thesis
    by (auto simp: vocab_load_def lines vocab_wf_def list_all_iff Let_def intro: vocab_wf_eq [symmetric])
qed

lemma vocab_load_wf: "vocab_load f = Inr v \<Longrightarrow> vocab_wf v"
  by (auto simp: vocab_load_def Let_def intro!: vocab_wf_vocab_of_words split: option.splits if_splits)

end
