(* ===== verification/Batcher.thy ===== *)
theory Batcher
  imports Vocab
begin

text \<open>
  The dataset, \<open>batcher.Dataset\<close>, imported by both scripts from a module that is not among
  the sources; modelled from the specification (section 4.3). The object is a record: the
  configuration (\<open>max_len\<close>, \<open>batch_size\<close>, \<open>preshuffle\<close>), the buffer of user names and
  token lists, the phase of the state machine \<open>Empty \<rightarrow> Raw \<rightarrow> Ready\<close>, the prepared
  arrays (token-id rows padded to \<open>max_len\<close>, true lengths, user ids), the current record
  order and cursor, and the state of the shuffle's generator. The random permutation is a
  Fisher--Yates shuffle driven by a linear congruential generator, so a run is
  reproducible from its seed, as the specification recommends. \<open>Prepare\<close> truncates at
  the tail (keeps the first \<open>max_len\<close> tokens) and pads with the index 0.
  \<open>GetNextBatch\<close> takes \<open>batch_size\<close> consecutive records of the current order, cyclically;
  when a batch reaches the end of the order the cursor wraps and, with preshuffling, the
  order is reshuffled for the next batch. Usage errors are the values \<open>NotPrepared\<close>
  and \<open>EmptyDataset\<close>.
\<close>

section \<open>Model\<close>

datatype phase = Empty | Raw | Ready

record dataset =
  max_len :: nat
  batch_size :: nat
  preshuffle :: bool
  users :: "string list"
  texts :: "token list list"
  phase :: phase
  rows :: "nat list list"
  seq_lens :: "nat list"
  user_ids :: "nat list"
  order :: "nat list"
  cur :: nat
  seed :: nat

record batch =
  tok_ids :: "nat list list"
  b_seq_len :: "nat list"
  b_users :: "nat list"

definition pad_id :: nat where "pad_id = 0"

definition lcg_next :: "nat \<Rightarrow> nat" where
  "lcg_next s = (1103515245 * s + 12345) mod 2 ^ 31"

function fy_shuffle :: "nat \<Rightarrow> 'a list \<Rightarrow> 'a list" where
  "fy_shuffle s [] = []"
| "fy_shuffle s (x # xs) =
     (let ys = x # xs; k = s mod length ys
      in ys ! k # fy_shuffle (lcg_next s) (take k ys @ drop (Suc k) ys))"
  by pat_completeness auto
termination
  by (relation "measure (\<lambda>(s, xs). length xs)") (auto simp: min_def)

definition new_dataset :: "nat \<Rightarrow> nat \<Rightarrow> bool \<Rightarrow> nat \<Rightarrow> dataset" where
  "new_dataset ml bs pre s =
     \<lparr>max_len = ml, batch_size = bs, preshuffle = pre, users = [], texts = [], phase = Empty,
      rows = [], seq_lens = [], user_ids = [], order = [], cur = 0, seed = s\<rparr>"

text \<open>\<open>AddDataSource(usernames, texts)\<close>: the two lists must have the same length.\<close>

definition add_data_source :: "dataset \<Rightarrow> string list \<Rightarrow> token list list \<Rightarrow> dataset result" where
  "add_data_source ds us ts =
     (if length us \<noteq> length ts then Inl ValueError
      else Inr (ds\<lparr>users := users ds @ us, texts := texts ds @ ts, phase := Raw\<rparr>))"

text \<open>One row: the ids of the first \<open>L\<close> tokens, padded with \<open>pad_id\<close>, and their number.\<close>

definition prepare_row :: "nat \<Rightarrow> vocab \<Rightarrow> token list \<Rightarrow> nat list \<times> nat" where
  "prepare_row L v ts =
     (let ids = map (vocab_lookup v) (take L ts) in (ids @ replicate (L - length ids) pad_id, length ids))"

definition prepare :: "dataset \<Rightarrow> vocab \<Rightarrow> vocab \<Rightarrow> dataset" where
  "prepare ds v uv =
     (let rs = map (prepare_row (max_len ds) v) (texts ds);
          base = [0..<length (texts ds)]
      in ds\<lparr>phase := Ready, rows := map fst rs, seq_lens := map snd rs,
            user_ids := map (vocab_lookup uv) (users ds),
            order := (if preshuffle ds then fy_shuffle (seed ds) base else base),
            cur := 0, seed := lcg_next (seed ds)\<rparr>)"

definition batch_indices :: "dataset \<Rightarrow> nat list" where
  "batch_indices ds =
     map (\<lambda>k. order ds ! ((cur ds + k) mod length (order ds))) [0..<batch_size ds]"

definition advance :: "dataset \<Rightarrow> dataset" where
  "advance ds =
     (let n = length (order ds); c = cur ds + batch_size ds in
      if n \<le> c \<and> preshuffle ds
      then ds\<lparr>order := fy_shuffle (seed ds) (order ds), seed := lcg_next (seed ds), cur := c mod n\<rparr>
      else ds\<lparr>cur := c mod n\<rparr>)"

definition get_next_batch :: "dataset \<Rightarrow> (batch \<times> dataset) result" where
  "get_next_batch ds =
     (if phase ds \<noteq> Ready then Inl NotPrepared
      else if order ds = [] then Inl EmptyDataset
      else (let idx = batch_indices ds in
            Inr (\<lparr>tok_ids = map (\<lambda>i. rows ds ! i) idx, b_seq_len = map (\<lambda>i. seq_lens ds ! i) idx,
                   b_users = map (\<lambda>i. user_ids ds ! i) idx\<rparr>, advance ds)))"

text \<open>\<open>GetNumBatches\<close>: \<open>ceil(N / batch_size)\<close>.\<close>

definition get_num_batches :: "dataset \<Rightarrow> nat result" where
  "get_num_batches ds =
     (if phase ds \<noteq> Ready then Inl NotPrepared
      else if batch_size ds = 0 then Inl ZeroDivisionError
      else Inr ((length (order ds) + batch_size ds - 1) div batch_size ds))"

text \<open>
  The invariant of a dataset: the buffer's two lists have one entry per record; once
  prepared, there is one row, length and user id per record, every row has \<open>max_len\<close>
  entries, every length is at most \<open>max_len\<close>, the order is a permutation of the record
  indices and the cursor is inside it.
\<close>

definition ds_wf :: "dataset \<Rightarrow> bool" where
  "ds_wf ds \<longleftrightarrow> length (users ds) = length (texts ds) \<and>
     (phase ds = Ready \<longrightarrow>
        length (rows ds) = length (texts ds) \<and> length (seq_lens ds) = length (texts ds) \<and>
        length (user_ids ds) = length (texts ds) \<and>
        mset (order ds) = mset [0..<length (texts ds)] \<and>
        (order ds \<noteq> [] \<longrightarrow> cur ds < length (order ds)) \<and>
        list_all (\<lambda>r. length r = max_len ds) (rows ds) \<and>
        list_all (\<lambda>l. l \<le> max_len ds) (seq_lens ds))"

text \<open>Every id of the prepared arrays is an index of the vocabularies it was prepared with.\<close>

definition ids_below :: "dataset \<Rightarrow> nat \<Rightarrow> nat \<Rightarrow> bool" where
  "ids_below ds V U \<longleftrightarrow> list_all (list_all (\<lambda>x. x < V)) (rows ds) \<and> list_all (\<lambda>x. x < U) (user_ids ds)"

section \<open>The shuffle\<close>

lemma mset_remove_nth:
  "k < length ys \<Longrightarrow> mset (ys ! k # take k ys @ drop (Suc k) ys) = mset ys"
proof -
  assume "k < length ys"
  then have "ys = take k ys @ ys ! k # drop (Suc k) ys" by (rule id_take_nth_drop)
  then have "mset ys = mset (take k ys @ ys ! k # drop (Suc k) ys)" by simp
  then show ?thesis by simp
qed

lemma mset_fy_shuffle [simp]: "mset (fy_shuffle s xs) = mset xs"
proof (induction s xs rule: fy_shuffle.induct)
  case (1 s)
  then show ?case by simp
next
  case (2 s x xs)
  let ?ys = "x # xs" and ?k = "s mod length (x # xs)"
  have k: "?k < length ?ys" by simp
  have "mset (fy_shuffle s (x # xs)) = {#?ys ! ?k#} + mset (take ?k ?ys @ drop (Suc ?k) ?ys)"
    using "2.IH" by (simp add: Let_def)
  also have "\<dots> = mset (?ys ! ?k # take ?k ?ys @ drop (Suc ?k) ?ys)" by simp
  also have "\<dots> = mset ?ys" using k by (rule mset_remove_nth)
  finally show ?case .
qed

lemma length_fy_shuffle [simp]: "length (fy_shuffle s xs) = length xs"
  by (metis mset_fy_shuffle size_mset)

lemma set_fy_shuffle [simp]: "set (fy_shuffle s xs) = set xs"
  by (metis mset_fy_shuffle set_mset_mset)

section \<open>The phases keep the invariant\<close>

lemma new_dataset_wf: "ds_wf (new_dataset ml bs pre s)"
  by (simp add: ds_wf_def new_dataset_def)

lemma add_data_source_wf:
  "ds_wf ds \<Longrightarrow> add_data_source ds us ts = Inr ds' \<Longrightarrow> ds_wf ds' \<and> phase ds' = Raw"
  by (auto simp: add_data_source_def ds_wf_def split: if_splits)

lemma add_data_source_error:
  "add_data_source ds us ts = Inl e \<longleftrightarrow> e = ValueError \<and> length us \<noteq> length ts"
  by (auto simp: add_data_source_def)

lemma prepare_row_length: "length (fst (prepare_row L v ts)) = L"
  by (simp add: prepare_row_def Let_def)

lemma prepare_row_seq_len: "snd (prepare_row L v ts) = min (length ts) L"
  by (simp add: prepare_row_def Let_def min.commute)

lemma prepare_row_ids:
  "vocab_wf v \<Longrightarrow> x \<in> set (fst (prepare_row L v ts)) \<Longrightarrow> x < vocab_size v"
  by (auto simp: prepare_row_def Let_def pad_id_def vocab_lookup_bound vocab_size_pos)

lemma prepare_row_prefix:
  "take (snd (prepare_row L v ts)) (fst (prepare_row L v ts)) = map (vocab_lookup v) (take L ts)"
  by (simp add: prepare_row_def Let_def)

lemma prepare_wf: "length (users ds) = length (texts ds) \<Longrightarrow> ds_wf (prepare ds v uv)"
  by (auto simp: ds_wf_def prepare_def Let_def list_all_iff prepare_row_length prepare_row_seq_len)

lemma prepare_ids_below:
  "vocab_wf v \<Longrightarrow> vocab_wf uv \<Longrightarrow> ids_below (prepare ds v uv) (vocab_size v) (vocab_size uv)"
  by (auto simp: ids_below_def prepare_def Let_def list_all_iff prepare_row_ids vocab_lookup_bound)

lemma prepare_phase [simp]: "phase (prepare ds v uv) = Ready"
  and prepare_cur [simp]: "cur (prepare ds v uv) = 0"
  and prepare_max_len [simp]: "max_len (prepare ds v uv) = max_len ds"
  and prepare_batch_size [simp]: "batch_size (prepare ds v uv) = batch_size ds"
  and prepare_texts [simp]: "texts (prepare ds v uv) = texts ds"
  and prepare_preshuffle [simp]: "preshuffle (prepare ds v uv) = preshuffle ds"
  and length_prepare_order [simp]: "length (order (prepare ds v uv)) = length (texts ds)"
  by (simp_all add: prepare_def Let_def)

section \<open>Batches\<close>

lemma order_bound:
  "ds_wf ds \<Longrightarrow> phase ds = Ready \<Longrightarrow> i \<in> set (order ds) \<Longrightarrow> i < length (texts ds)"
proof -
  assume "ds_wf ds" "phase ds = Ready" "i \<in> set (order ds)"
  then have "i \<in> set_mset (mset [0..<length (texts ds)])"
    by (metis ds_wf_def set_mset_mset)
  then show ?thesis by simp
qed

lemma length_order:
  "ds_wf ds \<Longrightarrow> phase ds = Ready \<Longrightarrow> length (order ds) = length (texts ds)"
  by (metis ds_wf_def length_upt minus_nat.diff_0 size_mset)

lemma batch_indices_bound:
  assumes "ds_wf ds" and "phase ds = Ready" and "order ds \<noteq> []"
  shows "i \<in> set (batch_indices ds) \<Longrightarrow> i < length (texts ds)"
proof -
  assume "i \<in> set (batch_indices ds)"
  then obtain k where i: "i = order ds ! ((cur ds + k) mod length (order ds))"
    by (auto simp: batch_indices_def)
  have "(cur ds + k) mod length (order ds) < length (order ds)"
    using assms(3) by simp
  then have "i \<in> set (order ds)" by (simp add: i)
  with assms(1,2) show ?thesis by (rule order_bound)
qed

lemma length_batch_indices [simp]: "length (batch_indices ds) = batch_size ds"
  by (simp add: batch_indices_def)

lemma advance_wf:
  assumes "ds_wf ds" and "phase ds = Ready" and "order ds \<noteq> []"
  shows "ds_wf (advance ds)"
  using assms by (auto simp: ds_wf_def advance_def Let_def)

lemma advance_same [simp]:
  "phase (advance ds) = phase ds" "rows (advance ds) = rows ds" "seq_lens (advance ds) = seq_lens ds"
  "user_ids (advance ds) = user_ids ds" "texts (advance ds) = texts ds" "users (advance ds) = users ds"
  "max_len (advance ds) = max_len ds" "batch_size (advance ds) = batch_size ds"
  "preshuffle (advance ds) = preshuffle ds" "length (order (advance ds)) = length (order ds)"
  by (simp_all add: advance_def Let_def)

lemma get_next_batch_errors:
  "phase ds \<noteq> Ready \<Longrightarrow> get_next_batch ds = Inl NotPrepared"
  "phase ds = Ready \<Longrightarrow> order ds = [] \<Longrightarrow> get_next_batch ds = Inl EmptyDataset"
  by (simp_all add: get_next_batch_def)

lemma get_next_batch_Inr:
  "get_next_batch ds = Inr (b, ds') \<Longrightarrow>
     phase ds = Ready \<and> order ds \<noteq> [] \<and> ds' = advance ds \<and>
     tok_ids b = map (\<lambda>i. rows ds ! i) (batch_indices ds) \<and>
     b_seq_len b = map (\<lambda>i. seq_lens ds ! i) (batch_indices ds) \<and>
     b_users b = map (\<lambda>i. user_ids ds ! i) (batch_indices ds)"
  by (auto simp: get_next_batch_def Let_def split: if_splits)

text \<open>A prepared, non-empty dataset always yields a batch, and the step keeps the invariant.\<close>

lemma get_next_batch_ok:
  assumes "ds_wf ds" and "phase ds = Ready" and "texts ds \<noteq> []"
  shows "\<exists>b. get_next_batch ds = Inr (b, advance ds)"
proof -
  have "order ds \<noteq> []" using assms length_order by fastforce
  with assms(2) show ?thesis by (simp add: get_next_batch_def Let_def)
qed

definition batch_shape :: "nat \<Rightarrow> nat \<Rightarrow> batch \<Rightarrow> bool" where
  "batch_shape B L b \<longleftrightarrow> length (tok_ids b) = B \<and> list_all (\<lambda>r. length r = L) (tok_ids b) \<and>
     length (b_seq_len b) = B \<and> list_all (\<lambda>l. l \<le> L) (b_seq_len b) \<and> length (b_users b) = B"

lemma get_next_batch_shape:
  assumes "ds_wf ds" and "get_next_batch ds = Inr (b, ds')"
  shows "batch_shape (batch_size ds) (max_len ds) b \<and> ds_wf ds' \<and> phase ds' = Ready"
proof -
  from get_next_batch_Inr [OF assms(2)] have
    r: "phase ds = Ready" "order ds \<noteq> []" "ds' = advance ds"
       "tok_ids b = map (\<lambda>i. rows ds ! i) (batch_indices ds)"
       "b_seq_len b = map (\<lambda>i. seq_lens ds ! i) (batch_indices ds)"
       "b_users b = map (\<lambda>i. user_ids ds ! i) (batch_indices ds)"
    by auto
  have idx: "i \<in> set (batch_indices ds) \<Longrightarrow> i < length (texts ds)" for i
    using assms(1) r(1,2) by (rule batch_indices_bound)
  have rows: "length (rows ds ! i) = max_len ds" and lens: "seq_lens ds ! i \<le> max_len ds"
    if "i < length (texts ds)" for i
    using assms(1) r(1) that by (auto simp: ds_wf_def list_all_iff)
  have "batch_shape (batch_size ds) (max_len ds) b"
    using idx rows lens by (auto simp: batch_shape_def r list_all_iff)
  moreover have "ds_wf ds'" using advance_wf [OF assms(1) r(1,2)] r(3) by simp
  ultimately show ?thesis using r by simp
qed

lemma get_next_batch_ids_below:
  assumes "ids_below ds V U" and "ds_wf ds" and "get_next_batch ds = Inr (b, ds')"
  shows "ids_below ds' V U \<and> list_all (list_all (\<lambda>x. x < V)) (tok_ids b) \<and> list_all (\<lambda>x. x < U) (b_users b)"
proof -
  from get_next_batch_Inr [OF assms(3)] have
    r: "phase ds = Ready" "order ds \<noteq> []" "ds' = advance ds"
       "tok_ids b = map (\<lambda>i. rows ds ! i) (batch_indices ds)"
       "b_users b = map (\<lambda>i. user_ids ds ! i) (batch_indices ds)"
    by auto
  have idx: "i \<in> set (batch_indices ds) \<Longrightarrow> i < length (texts ds)" for i
    using assms(2) r(1,2) by (rule batch_indices_bound)
  have len: "length (rows ds) = length (texts ds)" "length (user_ids ds) = length (texts ds)"
    using assms(2) r(1) by (simp_all add: ds_wf_def)
  show ?thesis
    using assms(1) idx len by (auto simp: ids_below_def r list_all_iff)
qed

lemma get_num_batches_eq:
  "phase ds = Ready \<Longrightarrow> 0 < batch_size ds \<Longrightarrow>
     get_num_batches ds = Inr ((length (order ds) + batch_size ds - 1) div batch_size ds)"
  by (simp add: get_num_batches_def)

section \<open>Consecutive batches\<close>

text \<open>The record indices of \<open>k\<close> consecutive batches, starting from a dataset.\<close>

fun pass_indices :: "nat \<Rightarrow> dataset \<Rightarrow> nat list" where
  "pass_indices 0 ds = []"
| "pass_indices (Suc k) ds = batch_indices ds @ pass_indices k (advance ds)"

lemma map_upt_shift: "map f [b..<b + m] = map (\<lambda>i. f (b + i)) [0..<m]"
  by (induction m) auto

lemma pass_indices_eq:
  "cur ds + k * batch_size ds < length (order ds) + batch_size ds \<Longrightarrow>
   pass_indices k ds = map (\<lambda>i. order ds ! ((cur ds + i) mod length (order ds))) [0..<k * batch_size ds]"
proof (induction k arbitrary: ds)
  case 0
  then show ?case by simp
next
  case (Suc k)
  let ?n = "length (order ds)" and ?b = "batch_size ds" and ?c = "cur ds"
  let ?f = "\<lambda>i. order ds ! ((?c + i) mod ?n)"
  show ?case
  proof (cases k)
    case 0
    then show ?thesis by (simp add: batch_indices_def)
  next
    case (Suc k')
    with Suc.prems have lt: "?c + ?b < ?n" by simp
    then have adv: "order (advance ds) = order ds" "cur (advance ds) = ?c + ?b"
      by (simp_all add: advance_def Let_def)
    have "cur (advance ds) + k * batch_size (advance ds) < length (order (advance ds)) + batch_size (advance ds)"
      using Suc.prems adv by simp
    then have IH: "pass_indices k (advance ds) = map (\<lambda>i. order ds ! ((?c + ?b + i) mod ?n)) [0..<k * ?b]"
      using Suc.IH adv by simp
    have "[0..<Suc k * ?b] = [0..<?b] @ [?b..<?b + k * ?b]"
      by (simp add: upt_add_eq_append [symmetric] add.commute)
    then have "map ?f [0..<Suc k * ?b] = map ?f [0..<?b] @ map (\<lambda>i. ?f (?b + i)) [0..<k * ?b]"
      by (simp add: map_upt_shift)
    then show ?thesis by (simp add: batch_indices_def IH add.assoc)
  qed
qed

lemma ceil_div_mult_ge: "0 < b \<Longrightarrow> n \<le> (n + b - 1) div b * (b::nat)"
proof -
  assume b: "0 < b"
  have "(n + b - 1) div b * b + (n + b - 1) mod b = n + b - 1" by (rule div_mult_mod_eq)
  moreover have "(n + b - 1) mod b < b" using b by simp
  ultimately show ?thesis by linarith
qed

lemma ceil_div_mult_eq_iff: "0 < b \<Longrightarrow> (n + b - 1) div b * b = n \<longleftrightarrow> b dvd (n::nat)"
proof
  assume "(n + b - 1) div b * b = n"
  then show "b dvd n" by (metis dvd_triv_right)
next
  assume b: "0 < b" and "b dvd n"
  then obtain q where n: "n = b * q" by blast
  have "(b - 1 + b * q) div b = q + (b - 1) div b"
    by (rule div_mult_self2) (use b in simp)
  moreover have "(b - 1) div b = 0" using b by (simp add: div_less)
  ultimately have "(b - 1 + b * q) div b = q" by simp
  moreover have "n + b - 1 = b - 1 + b * q" using b n by simp
  ultimately show "(n + b - 1) div b * b = n" using n by simp
qed

text \<open>
  An evaluation pass: from a freshly prepared dataset (cursor 0), \<open>ceil(n / b)\<close> batches
  read the order cyclically from its start, with no reshuffle before the last batch;
  every record is read, and each exactly once iff \<open>b\<close> divides \<open>n\<close>.
\<close>

lemma eval_pass_indices:
  assumes "0 < batch_size ds" and "cur ds = 0"
  shows "pass_indices ((length (order ds) + batch_size ds - 1) div batch_size ds) ds =
         map (\<lambda>i. order ds ! (i mod length (order ds)))
           [0..<(length (order ds) + batch_size ds - 1) div batch_size ds * batch_size ds]"
proof -
  let ?n = "length (order ds)" and ?b = "batch_size ds"
  have "(?n + ?b - 1) div ?b * ?b \<le> ?n + ?b - 1" by (rule div_times_less_eq_dividend)
  then have "cur ds + (?n + ?b - 1) div ?b * ?b < ?n + ?b" using assms by linarith
  then show ?thesis using assms(2) by (simp add: pass_indices_eq)
qed

lemma mod_stream_set:
  "0 < n \<Longrightarrow> n \<le> m \<Longrightarrow> length xs = n \<Longrightarrow> set (map (\<lambda>i. xs ! (i mod n)) [0..<m]) = set xs"
proof -
  assume n: "0 < n" "n \<le> m" "length xs = n"
  have "set (map (\<lambda>i. xs ! (i mod n)) [0..<m]) = (\<lambda>i. xs ! (i mod n)) ` {0..<m}" by simp
  also have "\<dots> = (\<lambda>j. xs ! j) ` {0..<n}"
  proof
    show "(\<lambda>i. xs ! (i mod n)) ` {0..<m} \<subseteq> (!) xs ` {0..<n}" using n(1) by auto
    show "(!) xs ` {0..<n} \<subseteq> (\<lambda>i. xs ! (i mod n)) ` {0..<m}"
    proof
      fix y assume "y \<in> (!) xs ` {0..<n}"
      then obtain j where j: "j < n" "y = xs ! j" by auto
      then have "y = xs ! (j mod n)" by simp
      moreover have "j \<in> {0..<m}" using j n by simp
      ultimately show "y \<in> (\<lambda>i. xs ! (i mod n)) ` {0..<m}" by blast
    qed
  qed
  also have "\<dots> = set xs" using n(3) by (auto simp: in_set_conv_nth)
  finally show ?thesis .
qed

lemma mod_stream_mset:
  assumes "length xs = n"
  shows "mset (map (\<lambda>i. xs ! (i mod n)) [0..<m]) = mset xs \<longleftrightarrow> m = n"
proof
  assume "mset (map (\<lambda>i. xs ! (i mod n)) [0..<m]) = mset xs"
  then have "size (mset (map (\<lambda>i. xs ! (i mod n)) [0..<m])) = size (mset xs)" by simp
  with assms show "m = n" by simp
next
  assume "m = n"
  then have "map (\<lambda>i. xs ! (i mod n)) [0..<m] = map (\<lambda>i. xs ! i) [0..<length xs]"
    using assms by simp
  then show "mset (map (\<lambda>i. xs ! (i mod n)) [0..<m]) = mset xs" by (simp add: map_nth)
qed

lemma eval_pass_coverage:
  assumes "ds_wf ds" and "phase ds = Ready" and "0 < batch_size ds" and "cur ds = 0"
    and "texts ds \<noteq> []"
  shows "set (pass_indices ((length (order ds) + batch_size ds - 1) div batch_size ds) ds) =
           {0..<length (texts ds)} \<and>
         (mset (pass_indices ((length (order ds) + batch_size ds - 1) div batch_size ds) ds) =
           mset [0..<length (texts ds)] \<longleftrightarrow> batch_size ds dvd length (texts ds))"
proof -
  let ?n = "length (order ds)" and ?b = "batch_size ds"
  have n: "?n = length (texts ds)" using assms(1,2) by (rule length_order)
  have perm: "mset (order ds) = mset [0..<length (texts ds)]" using assms(1,2) by (simp add: ds_wf_def)
  then have so: "set (order ds) = {0..<length (texts ds)}" by (metis set_mset_mset set_upt)
  have ge: "?n \<le> (?n + ?b - 1) div ?b * ?b" using assms(3) by (rule ceil_div_mult_ge)
  have pos: "0 < ?n" using n assms(5) by simp
  let ?K = "(?n + ?b - 1) div ?b"
  have P: "pass_indices ?K ds = map (\<lambda>i. order ds ! (i mod ?n)) [0..<?K * ?b]"
    using assms(3,4) by (rule eval_pass_indices)
  have S: "set (pass_indices ?K ds) = {0..<length (texts ds)}"
    unfolding P mod_stream_set [OF pos ge refl] by (rule so)
  have M: "mset (map (\<lambda>i. order ds ! (i mod ?n)) [0..<?K * ?b]) = mset (order ds) \<longleftrightarrow> ?K * ?b = ?n"
    by (rule mod_stream_mset) (rule refl)
  have "mset (pass_indices ?K ds) = mset [0..<length (texts ds)] \<longleftrightarrow> ?K * ?b = ?n"
    unfolding P perm [symmetric] by (rule M)
  also have "\<dots> \<longleftrightarrow> ?b dvd ?n" using assms(3) by (rule ceil_div_mult_eq_iff)
  finally have "mset (pass_indices ?K ds) = mset [0..<length (texts ds)] \<longleftrightarrow> ?b dvd length (texts ds)"
    by (simp only: n)
  with S show ?thesis by blast
qed

end
