(* ===== verification/Rnnlm_Driver.thy ===== *)
theory Rnnlm_Driver
  imports Complex_Main Corpus_Reader Batcher
begin

text \<open>
  The single-process driver \<open>src/rnnlm.py\<close>. The module-level script (lines 57--77) is
  \<open>rnnlm_setup\<close>: read the corpus in the requested mode, fill a dataset, build and save
  the two vocabularies in train mode or load them otherwise, and prepare the dataset
  unless in debug mode. The experiment directory is an explicit file system, a map from
  paths to contents; \<open>os.path.join\<close> is \<open>path_join\<close>. The training loop \<open>Train\<close>
  (lines 85--116), the evaluation loop \<open>Eval\<close> (lines 143--171) and \<open>GetText\<close> (lines
  139--141) are recursive functions over the iteration count; the TensorFlow session is
  an opaque parameter (a step function from a model state and a feed dictionary to a
  cost and the next model state), so the theorems hold for every model.
\<close>

section \<open>The script\<close>

type_synonym fs = "string \<rightharpoonup> string"

definition path_join :: "string \<Rightarrow> string \<Rightarrow> string" where
  "path_join d f = d @ ''/'' @ f"

definition word_vocab_path :: "string \<Rightarrow> string" where
  "word_vocab_path expdir = path_join expdir ''word_vocab.pickle''"

definition username_vocab_path :: "string \<Rightarrow> string" where
  "username_vocab_path expdir = path_join expdir ''username_vocab.pickle''"

text \<open>\<open>max_len = 36\<close>; the dataset holds rows of 36 ids, the model reads 35 of them.\<close>

definition rnnlm_max_len :: nat where "rnnlm_max_len = 36"

text \<open>Lines 65--67: \<open>MakeFromData(texts, min_count=20)\<close> and the user names as one-token lines with \<open>min_count=50\<close>.\<close>

definition build_vocabs :: "string list \<Rightarrow> token list list \<Rightarrow> vocab \<times> vocab" where
  "build_vocabs us ts = (make_from_data ts 20, make_from_data (map (\<lambda>u. [u]) us) 50)"

text \<open>Lines 68--69: both \<open>Save\<close> calls.\<close>

definition save_vocabs :: "string \<Rightarrow> vocab \<Rightarrow> vocab \<Rightarrow> fs \<Rightarrow> fs" where
  "save_vocabs expdir v uv f =
     f(word_vocab_path expdir \<mapsto> vocab_save v, username_vocab_path expdir \<mapsto> vocab_save uv)"

text \<open>Lines 73--74: both \<open>Load\<close> calls, in order.\<close>

definition load_vocabs :: "string \<Rightarrow> fs \<Rightarrow> (vocab \<times> vocab) result" where
  "load_vocabs expdir f =
     (case vocab_load (f (word_vocab_path expdir)) of
        Inl e \<Rightarrow> Inl e
      | Inr v \<Rightarrow> (case vocab_load (f (username_vocab_path expdir)) of
                   Inl e \<Rightarrow> Inl e
                 | Inr uv \<Rightarrow> Inr (v, uv)))"

record script_state =
  s_vocab :: vocab
  s_uvocab :: vocab
  s_dataset :: dataset
  s_fs :: fs

text \<open>
  Lines 57--77. The batch size is the default of \<open>batcher.Dataset\<close> (not in the sources)
  and the seed the state of its generator; both are parameters.
\<close>

definition rnnlm_setup ::
  "mode \<Rightarrow> string \<Rightarrow> nat \<Rightarrow> nat \<Rightarrow> fs \<Rightarrow> string \<Rightarrow> script_state result" where
  "rnnlm_setup md expdir bs sd f corpus =
     (case read_data md default_limit corpus of
        Inl e \<Rightarrow> Inl e
      | Inr (us, ts) \<Rightarrow>
          (case add_data_source (new_dataset rnnlm_max_len bs True sd) us ts of
             Inl e \<Rightarrow> Inl e
           | Inr ds \<Rightarrow>
               (case (if md = Train
                      then (let (v, uv) = build_vocabs us ts
                            in Inr (v, uv, save_vocabs expdir v uv f))
                      else (case load_vocabs expdir f of
                              Inl e \<Rightarrow> Inl e
                            | Inr (v, uv) \<Rightarrow> Inr (v, uv, f))) of
                  Inl e \<Rightarrow> Inl e
                | Inr (v, uv, f') \<Rightarrow>
                    Inr \<lparr>s_vocab = v, s_uvocab = uv,
                         s_dataset = (if md \<noteq> Debug then prepare ds v uv else ds), s_fs = f'\<rparr>)))"

section \<open>Facts about the script\<close>

lemma vocab_paths_differ: "word_vocab_path d \<noteq> username_vocab_path d"
  by (simp add: word_vocab_path_def username_vocab_path_def path_join_def)

lemma tokens_wf_no_NL:
  assumes wf: "tokens_wf ts" and w: "w \<in> set ts"
  shows "NL \<notin> set w"
proof -
  have "w = hd ts \<or> w = last ts \<or> w \<in> set (butlast (tl ts))"
    using w set_hd_last_mid [of ts] wf by (simp add: tokens_wf_def)
  moreover have "NL \<notin> set BOS" "NL \<notin> set EOS" by (simp_all add: BOS_def EOS_def NL_def)
  moreover have "NL \<notin> set w" if "w \<in> set (butlast (tl ts))"
    using wf that NL_space by (fastforce simp: tokens_wf_def)
  ultimately show ?thesis using wf by (auto simp: tokens_wf_def)
qed

lemma UNK_no_NL: "NL \<notin> set UNK"
  by (simp add: UNK_def NL_def)

lemma make_from_data_no_NL:
  "(\<And>w. w \<in> set (concat lines) \<Longrightarrow> NL \<notin> set w) \<Longrightarrow>
     list_all (\<lambda>w. NL \<notin> set w) (idx_to_word (make_from_data lines k))"
  by (auto simp: list_all_iff set_idx_to_word_make set_kept_tokens UNK_no_NL)

lemma read_data_texts_wf:
  assumes "read_data md limit c = Inr (us, ts)" and "t \<in> set ts"
  shows "tokens_wf t"
proof -
  from read_data_records_wf [OF assms(1)] have
    len: "length us = length ts" and wf: "\<forall>r \<in> set (zip us ts). record_wf r" by auto
  from assms(2) obtain i where i: "i < length ts" "ts ! i = t" by (auto simp: in_set_conv_nth)
  then have "(us ! i, t) \<in> set (zip us ts)" using len by (auto simp: in_set_zip)
  with wf show ?thesis by (auto simp: record_wf_def)
qed

lemma read_data_no_NL:
  assumes "read_data md limit c = Inr (us, ts)"
  shows "\<And>w. w \<in> set (concat ts) \<Longrightarrow> NL \<notin> set w"
    and "\<And>u. u \<in> set us \<Longrightarrow> NL \<notin> set u"
proof -
  from read_data_records_wf [OF assms] have
    len: "length us = length ts" and wf: "\<forall>r \<in> set (zip us ts). record_wf r" by auto
  show "NL \<notin> set w" if "w \<in> set (concat ts)" for w
  proof -
    from that obtain t where t: "t \<in> set ts" "w \<in> set t" by auto
    have "tokens_wf t" using read_data_texts_wf [OF assms t(1)] .
    then show ?thesis using t(2) by (rule tokens_wf_no_NL)
  qed
  show "NL \<notin> set u" if "u \<in> set us" for u
  proof -
    from that obtain i where i: "i < length us" "us ! i = u" by (auto simp: in_set_conv_nth)
    then have "(u, ts ! i) \<in> set (zip us ts)" using len by (auto simp: in_set_zip)
    with wf show ?thesis by (auto simp: record_wf_def)
  qed
qed

lemma load_save_vocabs:
  assumes "vocab_wf v" "vocab_wf uv"
    and "list_all (\<lambda>w. NL \<notin> set w) (idx_to_word v)" "list_all (\<lambda>w. NL \<notin> set w) (idx_to_word uv)"
  shows "load_vocabs expdir (save_vocabs expdir v uv f) = Inr (v, uv)"
  using assms vocab_paths_differ [of expdir]
  by (simp add: load_vocabs_def save_vocabs_def vocab_load_save)

abbreviation raw_dataset :: "nat \<Rightarrow> nat \<Rightarrow> string list \<Rightarrow> token list list \<Rightarrow> dataset" where
  "raw_dataset bs sd us ts \<equiv> (new_dataset rnnlm_max_len bs True sd)\<lparr>users := us, texts := ts, phase := Raw\<rparr>"

lemma read_data_add_source:
  "read_data md limit c = Inr (us, ts) \<Longrightarrow>
     add_data_source (new_dataset rnnlm_max_len bs True sd) us ts = Inr (raw_dataset bs sd us ts)"
  using read_data_records_wf [of md limit c us ts]
  by (simp add: add_data_source_def new_dataset_def)

lemma rnnlm_setup_Train:
  assumes "read_data Train default_limit c = Inr (us, ts)"
  shows "rnnlm_setup Train d bs sd f c =
           Inr \<lparr>s_vocab = make_from_data ts 20, s_uvocab = make_from_data (map (\<lambda>u. [u]) us) 50,
                s_dataset = prepare (raw_dataset bs sd us ts)
                              (make_from_data ts 20) (make_from_data (map (\<lambda>u. [u]) us) 50),
                s_fs = save_vocabs d (make_from_data ts 20) (make_from_data (map (\<lambda>u. [u]) us) 50) f\<rparr>"
  using read_data_add_source [OF assms]
  by (simp add: rnnlm_setup_def assms build_vocabs_def)

lemma rnnlm_setup_load:
  assumes "read_data md default_limit c = Inr (us, ts)" and "md \<noteq> Train"
  shows "rnnlm_setup md d bs sd f c =
           (case load_vocabs d f of
              Inl e \<Rightarrow> Inl e
            | Inr (v, uv) \<Rightarrow>
                Inr \<lparr>s_vocab = v, s_uvocab = uv,
                     s_dataset = (if md \<noteq> Debug then prepare (raw_dataset bs sd us ts) v uv
                                  else raw_dataset bs sd us ts), s_fs = f\<rparr>)"
  using read_data_add_source [OF assms(1)] assms
  by (simp add: rnnlm_setup_def split: sum.splits prod.splits)

lemma rnnlm_setup_read_error:
  "read_data md default_limit c = Inl e \<Longrightarrow> rnnlm_setup md d bs sd f c = Inl e"
  by (simp add: rnnlm_setup_def)

section \<open>Feed dictionaries and logged text\<close>

record feed =
  fx :: "nat list list"
  fy :: "nat list list"
  fseq :: "nat list"

text \<open>Lines 99--104 (and 155--160): \<open>model.x: s[:, :-1]\<close>, \<open>model.y: s[:, 1:]\<close>, \<open>model.seq_len: seq_len\<close>.\<close>

definition make_feed :: "batch \<Rightarrow> feed" where
  "make_feed b = \<lparr>fx = map butlast (tok_ids b), fy = map tl (tok_ids b), fseq = b_seq_len b\<rparr>"

definition SPACE :: char where "SPACE = CHR 0x20"

text \<open>\<open>s[0, i]\<close>: the first row of the batch array, both indices checked.\<close>

definition batch_at :: "batch \<Rightarrow> nat \<Rightarrow> nat result" where
  "batch_at b i = (case tok_ids b of [] \<Rightarrow> Inl IndexError
                   | r # _ \<Rightarrow> if i < length r then Inr (r ! i) else Inl IndexError)"

text \<open>\<open>GetText\<close> (lines 139--141): the words of the first \<open>n\<close> ids of the first row, joined by blanks.\<close>

definition get_text :: "vocab \<Rightarrow> batch \<Rightarrow> nat \<Rightarrow> string result" where
  "get_text v b n =
     (case sequence_result (map (\<lambda>i. case batch_at b i of Inl e \<Rightarrow> Inl e | Inr x \<Rightarrow> vocab_word v x) [0..<n]) of
        Inl e \<Rightarrow> Inl e
      | Inr ws \<Rightarrow> Inr (py_join SPACE ws))"

text \<open>Lines 109--110: the same with \<open>n = seq_len[0]\<close>.\<close>

definition log_text :: "vocab \<Rightarrow> batch \<Rightarrow> string result" where
  "log_text v b = (case b_seq_len b of [] \<Rightarrow> Inl IndexError | n # _ \<Rightarrow> get_text v b n)"

section \<open>The training loop\<close>

text \<open>
  \<open>Train\<close> (lines 85--116). The model is an opaque state \<open>'m\<close>; \<open>session.run([model.cost,
  train_op], feed_dict)\<close> is a function \<open>run\<close> returning the cost and the updated model.
  What the loop emits is a list of events: a log record every 25 iterations (the printed
  text and cost) and a checkpoint of the model every 1000 iterations, nested in the
  logging branch as in the source.
\<close>

datatype 'm event = Log nat string real | Checkpoint nat 'm

fun train_loop ::
  "('m \<Rightarrow> feed \<Rightarrow> real \<times> 'm) \<Rightarrow> vocab \<Rightarrow> nat \<Rightarrow> nat \<Rightarrow> dataset \<Rightarrow> 'm \<Rightarrow>
     ('m event list \<times> dataset \<times> 'm) result" where
  "train_loop run v idx 0 ds m = Inr ([], ds, m)"
| "train_loop run v idx (Suc k) ds m =
     (case get_next_batch ds of
        Inl e \<Rightarrow> Inl e
      | Inr (b, ds') \<Rightarrow>
          (let (c, m') = run m (make_feed b) in
           (case (if idx mod 25 = 0
                  then (case log_text v b of
                          Inl e \<Rightarrow> Inl e
                        | Inr t \<Rightarrow> Inr (Log idx t c # (if idx mod 1000 = 0 then [Checkpoint idx m'] else [])))
                  else Inr []) of
              Inl e \<Rightarrow> Inl e
            | Inr evs \<Rightarrow>
                (case train_loop run v (Suc idx) k ds' m' of
                   Inl e \<Rightarrow> Inl e
                 | Inr (evs', r) \<Rightarrow> Inr (evs @ evs', r)))))"

definition train_iterations :: nat where "train_iterations = 800000"

definition train :: "('m \<Rightarrow> feed \<Rightarrow> real \<times> 'm) \<Rightarrow> vocab \<Rightarrow> dataset \<Rightarrow> 'm \<Rightarrow>
     ('m event list \<times> dataset \<times> 'm) result" where
  "train run v ds m = train_loop run v 0 train_iterations ds m"

fun ckpt_steps :: "'m event list \<Rightarrow> nat list" where
  "ckpt_steps [] = []"
| "ckpt_steps (Checkpoint j m # evs) = j # ckpt_steps evs"
| "ckpt_steps (Log j t c # evs) = ckpt_steps evs"

fun log_steps :: "'m event list \<Rightarrow> nat list" where
  "log_steps [] = []"
| "log_steps (Log j t c # evs) = j # log_steps evs"
| "log_steps (Checkpoint j m # evs) = log_steps evs"

lemma ckpt_steps_append [simp]: "ckpt_steps (xs @ ys) = ckpt_steps xs @ ckpt_steps ys"
  by (induction xs rule: ckpt_steps.induct) auto

lemma log_steps_append [simp]: "log_steps (xs @ ys) = log_steps xs @ log_steps ys"
  by (induction xs rule: log_steps.induct) auto

section \<open>Facts about the logged text and the training loop\<close>

lemma get_text_ok:
  assumes "tok_ids b = r # rs" and "n \<le> length r" and "list_all (\<lambda>x. x < vocab_size v) r"
  shows "get_text v b n = Inr (py_join SPACE (map (\<lambda>x. idx_to_word v ! x) (take n r)))"
proof -
  have m: "map (\<lambda>i. case batch_at b i of Inl e \<Rightarrow> Inl e | Inr x \<Rightarrow> vocab_word v x) [0..<n] =
           map (\<lambda>i. Inr (idx_to_word v ! (r ! i))) [0..<n]"
    by (rule map_cong [OF refl]) (use assms in \<open>auto simp: batch_at_def vocab_word_ok list_all_iff\<close>)
  have t: "map (\<lambda>i. idx_to_word v ! (r ! i)) [0..<n] = map (\<lambda>x. idx_to_word v ! x) (take n r)"
    using assms(2) by (simp add: list_eq_iff_nth_eq)
  show ?thesis unfolding get_text_def m sequence_result_map_Inr t by simp
qed

lemma log_text_ok:
  assumes "tok_ids b = r # rs" and "b_seq_len b = n # ns" and "n \<le> length r"
    and "list_all (\<lambda>x. x < vocab_size v) r"
  shows "log_text v b = Inr (py_join SPACE (map (\<lambda>x. idx_to_word v ! x) (take n r)))"
  using get_text_ok [OF assms(1,3,4)] assms(2) by (simp add: log_text_def)

text \<open>A batch of a prepared dataset whose ids are below the vocabulary size can always be logged.\<close>

lemma batch_log_text:
  assumes "ds_wf ds" and "ids_below ds (vocab_size v) U" and "0 < batch_size ds"
    and "get_next_batch ds = Inr (b, ds')"
  shows "\<exists>t. log_text v b = Inr t"
proof -
  have sh: "batch_shape (batch_size ds) (max_len ds) b"
    using get_next_batch_shape [OF assms(1,4)] by simp
  have ids: "list_all (list_all (\<lambda>x. x < vocab_size v)) (tok_ids b)"
    using get_next_batch_ids_below [OF assms(2,1,4)] by simp
  obtain r rs n ns where rn: "tok_ids b = r # rs" "b_seq_len b = n # ns"
    using sh assms(3) by (cases "tok_ids b"; cases "b_seq_len b") (auto simp: batch_shape_def)
  have "n \<le> length r" using sh by (simp add: batch_shape_def rn)
  with rn ids show ?thesis using log_text_ok [of b r rs n ns v] by simp
qed

text \<open>One iteration of the loop on a dataset satisfying the loop's precondition.\<close>

definition train_pre :: "vocab \<Rightarrow> dataset \<Rightarrow> bool" where
  "train_pre v ds \<longleftrightarrow> ds_wf ds \<and> phase ds = Ready \<and> texts ds \<noteq> [] \<and> 0 < batch_size ds \<and>
     (\<exists>U. ids_below ds (vocab_size v) U)"

lemma train_pre_step:
  assumes "train_pre v ds"
  obtains b where "get_next_batch ds = Inr (b, advance ds)" "\<exists>t. log_text v b = Inr t"
    "train_pre v (advance ds)"
proof -
  from assms obtain U where pre: "ds_wf ds" "phase ds = Ready" "texts ds \<noteq> []" "0 < batch_size ds"
    "ids_below ds (vocab_size v) U" by (auto simp: train_pre_def)
  obtain b where b: "get_next_batch ds = Inr (b, advance ds)"
    using get_next_batch_ok [OF pre(1-3)] by blast
  have "ds_wf (advance ds)" using get_next_batch_shape [OF pre(1) b] by simp
  moreover have "ids_below (advance ds) (vocab_size v) U"
    using get_next_batch_ids_below [OF pre(5,1) b] by simp
  ultimately have "train_pre v (advance ds)" using pre by (auto simp: train_pre_def)
  moreover have "\<exists>t. log_text v b = Inr t" using batch_log_text [OF pre(1,5,4) b] .
  ultimately show ?thesis using that b by blast
qed

lemma train_loop_Suc_ok:
  assumes "get_next_batch ds = Inr (b, ds')" and "log_text v b = Inr t" and "run m (make_feed b) = (c, m')"
  shows "train_loop run v idx (Suc k) ds m =
           (case train_loop run v (Suc idx) k ds' m' of
              Inl e \<Rightarrow> Inl e
            | Inr (evs', r) \<Rightarrow>
                Inr ((if idx mod 25 = 0
                      then Log idx t c # (if idx mod 1000 = 0 then [Checkpoint idx m'] else []) else []) @ evs', r))"
  using assms by (simp split: sum.splits)

lemma train_loop_total:
  "train_pre v ds \<Longrightarrow> \<exists>r. train_loop run v idx k ds m = Inr r"
proof (induction k arbitrary: idx ds m)
  case 0
  then show ?case by simp
next
  case (Suc k)
  obtain b t where b: "get_next_batch ds = Inr (b, advance ds)" "log_text v b = Inr t"
    and pre: "train_pre v (advance ds)"
    using train_pre_step [OF Suc.prems] by blast
  obtain c m' where cm: "run m (make_feed b) = (c, m')" by fastforce
  obtain r where "train_loop run v (Suc idx) k (advance ds) m' = Inr r"
    using Suc.IH [OF pre] by blast
  then show ?case unfolding train_loop_Suc_ok [where run = run and m = m, OF b cm] by (cases r) simp
qed

lemma mod_1000_mod_25: "(j::nat) mod 1000 = 0 \<Longrightarrow> j mod 25 = 0"
proof -
  assume "j mod 1000 = 0"
  then have "(25::nat) * 40 dvd j" by (simp add: dvd_eq_mod_eq_0)
  then have "25 dvd j" by (rule dvd_mult_left)
  then show ?thesis by (simp add: dvd_eq_mod_eq_0)
qed

lemma train_loop_schedule:
  "train_loop run v idx k ds m = Inr (evs, r) \<Longrightarrow>
     ckpt_steps evs = filter (\<lambda>j. j mod 1000 = 0) [idx..<idx + k] \<and>
     log_steps evs = filter (\<lambda>j. j mod 25 = 0) [idx..<idx + k]"
proof (induction k arbitrary: idx ds m evs r)
  case 0
  then show ?case by simp
next
  case (Suc k)
  obtain b ds' where b: "get_next_batch ds = Inr (b, ds')"
    using Suc.prems by (cases "get_next_batch ds") (auto split: prod.splits)
  obtain c m' where cm: "run m (make_feed b) = (c, m')" by fastforce
  have up: "[idx..<Suc (idx + k)] = idx # [Suc idx..<Suc (idx + k)]" by (rule upt_conv_Cons) simp
  show ?case
  proof (cases "idx mod 25 = 0")
    case True
    then obtain t where t: "log_text v b = Inr t"
      using Suc.prems b cm by (cases "log_text v b") auto
    obtain evs' where l: "train_loop run v (Suc idx) k ds' m' = Inr (evs', r)"
      and evs: "evs = Log idx t c # (if idx mod 1000 = 0 then [Checkpoint idx m'] else []) @ evs'"
      using Suc.prems True unfolding train_loop_Suc_ok [where run = run and m = m, OF b t cm] by (auto split: sum.splits)
    show ?thesis using Suc.IH [OF l] True by (simp add: up evs del: upt_Suc)
  next
    case False
    then have "idx mod 1000 \<noteq> 0" using mod_1000_mod_25 [of idx] by (rule contrapos_nn)
    moreover obtain evs' where l: "train_loop run v (Suc idx) k ds' m' = Inr (evs', r)" "evs = evs'"
      using Suc.prems False b cm by (auto split: sum.splits)
    ultimately show ?thesis using Suc.IH [OF l(1)] False by (simp add: up l(2) del: upt_Suc)
  qed
qed

lemma filter_mod_upt_mult:
  "0 < n \<Longrightarrow> filter (\<lambda>j. j mod n = 0) [0..<n * m] = map (\<lambda>j. n * j) [0..<(m::nat)]"
proof (induction m)
  case 0
  then show ?case by simp
next
  case (Suc m)
  have a: "[0..<n * m + n] = [0..<n * m] @ [n * m..<n * m + n]" by (rule upt_add_eq_append) simp
  have b: "[n * m..<n * m + n] = n * m # [Suc (n * m)..<n * m + n]"
    by (rule upt_conv_Cons) (use Suc.prems in simp)
  have "j mod n \<noteq> 0" if "j \<in> set [Suc (n * m)..<n * m + n]" for j
  proof -
    from that have j: "j = (j - n * m) + m * n" and d: "j - n * m < n" "0 < j - n * m" by auto
    have "j mod n = (j - n * m) mod n" by (subst j) (rule mod_mult_self1)
    with d show ?thesis by simp
  qed
  then have "filter (\<lambda>j. j mod n = 0) [Suc (n * m)..<n * m + n] = []" by (auto simp: filter_empty_conv)
  moreover have "n * Suc m = n * m + n" by simp
  ultimately show ?case using Suc by (simp only: a b) simp
qed

section \<open>The evaluation loop\<close>

text \<open>
  \<open>Eval\<close> (lines 143--171): \<open>GetNumBatches()\<close> iterations; each adds \<open>sum(seq_len)\<close> to
  the word count and \<open>cost * sum(seq_len)\<close> to the log probability and prints
  \<open>exp(total_log_prob / total_word_count)\<close>, a division that raises on a zero count.
  The loop returns the printed values and its final totals; \<open>session.run([model.cost])\<close>
  is the opaque \<open>cost\<close> of the restored model.
\<close>

fun eval_loop ::
  "('m \<Rightarrow> feed \<Rightarrow> real) \<Rightarrow> 'm \<Rightarrow> nat \<Rightarrow> dataset \<Rightarrow> nat \<Rightarrow> real \<Rightarrow>
     (real list \<times> nat \<times> real \<times> dataset) result" where
  "eval_loop cost m 0 ds twc tlp = Inr ([], twc, tlp, ds)"
| "eval_loop cost m (Suc k) ds twc tlp =
     (case get_next_batch ds of
        Inl e \<Rightarrow> Inl e
      | Inr (b, ds') \<Rightarrow>
          (let a = cost m (make_feed b);
               twc' = twc + sum_list (b_seq_len b);
               tlp' = tlp + a * real (sum_list (b_seq_len b))
           in if twc' = 0 then Inl ZeroDivisionError
              else (case eval_loop cost m k ds' twc' tlp' of
                      Inl e \<Rightarrow> Inl e
                    | Inr (ps, r) \<Rightarrow> Inr (exp (tlp' / real twc') # ps, r))))"

definition rnnlm_eval :: "('m \<Rightarrow> feed \<Rightarrow> real) \<Rightarrow> 'm \<Rightarrow> dataset \<Rightarrow> (real list \<times> nat \<times> real \<times> dataset) result" where
  "rnnlm_eval cost m ds =
     (case get_num_batches ds of Inl e \<Rightarrow> Inl e | Inr nb \<Rightarrow> eval_loop cost m nb ds 0 0)"

section \<open>Greedy decoding\<close>

text \<open>
  \<open>np.argmax\<close> (line 134): the first index of the maximum; an empty array raises.
  The loop keeps the index of the best value seen so far and replaces it only on a
  strictly larger value.
\<close>

fun argmax_loop :: "real list \<Rightarrow> nat \<Rightarrow> nat \<Rightarrow> real \<Rightarrow> nat" where
  "argmax_loop [] i bi bv = bi"
| "argmax_loop (q # qs) i bi bv = (if bv < q then argmax_loop qs (Suc i) i q else argmax_loop qs (Suc i) bi bv)"

definition py_argmax :: "real list \<Rightarrow> nat result" where
  "py_argmax ps = (case ps of [] \<Rightarrow> Inl ValueError | p # qs \<Rightarrow> Inr (argmax_loop qs 1 0 p))"

text \<open>
  \<open>Greedy\<close> (lines 119--136): ten steps from \<open><S>\<close>; each feeds \<open>vocab[current_word]\<close>
  and the recurrent state to the model (an opaque \<open>step\<close>), takes the arg-max of the
  distribution and looks its word up in \<open>idx_to_word\<close>. The printed words are the result.
\<close>

fun greedy_loop ::
  "('m \<Rightarrow> nat \<Rightarrow> 'h \<Rightarrow> real list \<times> 'h) \<Rightarrow> 'm \<Rightarrow> vocab \<Rightarrow> nat \<Rightarrow> token \<Rightarrow> 'h \<Rightarrow> token list result" where
  "greedy_loop step m v 0 w h = Inr []"
| "greedy_loop step m v (Suc k) w h =
     (let (probs, h') = step m (vocab_lookup v w) h in
      case py_argmax probs of
        Inl e \<Rightarrow> Inl e
      | Inr i \<Rightarrow> (case vocab_word v i of
                   Inl e \<Rightarrow> Inl e
                 | Inr w' \<Rightarrow> (case greedy_loop step m v k w' h' of
                               Inl e \<Rightarrow> Inl e
                             | Inr ws \<Rightarrow> Inr (w' # ws))))"

definition greedy :: "('m \<Rightarrow> nat \<Rightarrow> 'h \<Rightarrow> real list \<times> 'h) \<Rightarrow> 'm \<Rightarrow> vocab \<Rightarrow> 'h \<Rightarrow> token list result" where
  "greedy step m v h0 = greedy_loop step m v 10 BOS h0"

section \<open>The mode dispatch\<close>

text \<open>
  Lines 173--180 after the script: train, evaluate or decode. \<open>saver.restore\<close> of
  \<open>model.bin\<close> is the parameter \<open>restored\<close> (the model or the error of the restore);
  the initial model of \<open>Train\<close> is \<open>m0\<close>, the zero recurrent state of \<open>Greedy\<close> is \<open>h0\<close>.
\<close>

datatype 'm outcome = Trained "'m event list" | Evaluated "real list" | Decoded "token list"

definition rnnlm_main ::
  "mode \<Rightarrow> string \<Rightarrow> nat \<Rightarrow> nat \<Rightarrow> fs \<Rightarrow> string \<Rightarrow>
   ('m \<Rightarrow> feed \<Rightarrow> real \<times> 'm) \<Rightarrow> ('m \<Rightarrow> feed \<Rightarrow> real) \<Rightarrow> ('m \<Rightarrow> nat \<Rightarrow> 'h \<Rightarrow> real list \<times> 'h) \<Rightarrow>
   'm \<Rightarrow> 'm result \<Rightarrow> 'h \<Rightarrow> ('m outcome \<times> fs) result" where
  "rnnlm_main md expdir bs sd f corpus run cost step m0 restored h0 =
     (case rnnlm_setup md expdir bs sd f corpus of
        Inl e \<Rightarrow> Inl e
      | Inr st \<Rightarrow>
          (case md of
             Train \<Rightarrow> (case train run (s_vocab st) (s_dataset st) m0 of
                         Inl e \<Rightarrow> Inl e
                       | Inr (evs, _) \<Rightarrow> Inr (Trained evs, s_fs st))
           | Eval \<Rightarrow> (case restored of
                        Inl e \<Rightarrow> Inl e
                      | Inr m \<Rightarrow> (case rnnlm_eval cost m (s_dataset st) of
                                   Inl e \<Rightarrow> Inl e
                                 | Inr (ps, _) \<Rightarrow> Inr (Evaluated ps, s_fs st)))
           | Debug \<Rightarrow> (case restored of
                         Inl e \<Rightarrow> Inl e
                       | Inr m \<Rightarrow> (case greedy step m (s_vocab st) h0 of
                                    Inl e \<Rightarrow> Inl e
                                  | Inr ws \<Rightarrow> Inr (Decoded ws, s_fs st)))))"

section \<open>Facts about the evaluation loop\<close>

definition eval_pre :: "dataset \<Rightarrow> bool" where
  "eval_pre ds \<longleftrightarrow> ds_wf ds \<and> phase ds = Ready \<and> texts ds \<noteq> [] \<and> 0 < batch_size ds \<and>
     list_all (\<lambda>l. 0 < l) (seq_lens ds)"

lemma eval_pre_step:
  assumes "eval_pre ds"
  obtains b where "get_next_batch ds = Inr (b, advance ds)"
    "sum_list (b_seq_len b) = sum_list (map (\<lambda>i. seq_lens ds ! i) (batch_indices ds))"
    "0 < sum_list (b_seq_len b)" "eval_pre (advance ds)"
proof -
  from assms have pre: "ds_wf ds" "phase ds = Ready" "texts ds \<noteq> []" "0 < batch_size ds"
    "list_all (\<lambda>l. 0 < l) (seq_lens ds)" by (auto simp: eval_pre_def)
  obtain b where b: "get_next_batch ds = Inr (b, advance ds)"
    using get_next_batch_ok [OF pre(1-3)] by blast
  have sl: "b_seq_len b = map (\<lambda>i. seq_lens ds ! i) (batch_indices ds)"
    using get_next_batch_Inr [OF b] by simp
  obtain i js where bi: "batch_indices ds = i # js"
    using pre(4) by (cases "batch_indices ds") (auto dest: arg_cong [of _ _ length])
  have "i < length (texts ds)"
    using batch_indices_bound [OF pre(1,2)] get_next_batch_Inr [OF b] bi by auto
  then have "0 < seq_lens ds ! i"
    using pre(1,2,5) by (auto simp: ds_wf_def list_all_iff)
  then have pos: "0 < sum_list (b_seq_len b)" by (simp add: sl bi)
  have "ds_wf (advance ds)" using get_next_batch_shape [OF pre(1) b] by simp
  then have "eval_pre (advance ds)" using pre by (simp add: eval_pre_def)
  then show ?thesis using that [OF b _ pos] by (simp add: sl)
qed

lemma eval_loop_result:
  "eval_pre ds \<Longrightarrow>
     \<exists>ps tlp' ds'. eval_loop cost m k ds twc tlp =
        Inr (ps, twc + sum_list (map (\<lambda>i. seq_lens ds ! i) (pass_indices k ds)), tlp', ds') \<and>
        length ps = k"
proof (induction k arbitrary: ds twc tlp)
  case 0
  then show ?case by simp
next
  case (Suc k)
  obtain b where b: "get_next_batch ds = Inr (b, advance ds)"
    and s: "sum_list (b_seq_len b) = sum_list (map (\<lambda>i. seq_lens ds ! i) (batch_indices ds))"
    and pos: "0 < sum_list (b_seq_len b)" and pre: "eval_pre (advance ds)"
    using eval_pre_step [OF Suc.prems] by blast
  let ?twc = "twc + sum_list (b_seq_len b)" and ?tlp = "tlp + cost m (make_feed b) * real (sum_list (b_seq_len b))"
  obtain ps tlp' ds' where
    r: "eval_loop cost m k (advance ds) ?twc ?tlp =
          Inr (ps, ?twc + sum_list (map (\<lambda>i. seq_lens ds ! i) (pass_indices k (advance ds))), tlp', ds')"
    and l: "length ps = k"
    using Suc.IH [OF pre, of ?twc ?tlp] by auto
  have step: "eval_loop cost m (Suc k) ds twc tlp =
      (case eval_loop cost m k (advance ds) ?twc ?tlp of
         Inl e \<Rightarrow> Inl e | Inr (ps, r) \<Rightarrow> Inr (exp (?tlp / real ?twc) # ps, r))"
  proof -
    have nz: "twc + sum_list (b_seq_len b) \<noteq> 0" using pos by linarith
    show ?thesis by (simp only: eval_loop.simps b sum.case prod.case Let_def if_not_P [OF nz])
  qed
  show ?case unfolding step r using l s by simp
qed

lemma sum_list_map_perm:
  "mset xs = mset [0..<length ys] \<Longrightarrow> sum_list (map (\<lambda>i. ys ! i) xs) = sum_list (ys :: nat list)"
  by (metis map_nth mset_map sum_mset_sum_list)

lemma prepare_seq_lens:
  "seq_lens (prepare ds v uv) = map (\<lambda>t. min (length t) (max_len ds)) (texts ds)"
  by (simp add: prepare_def Let_def prepare_row_seq_len comp_def)

lemma prepare_eval_pre:
  assumes "length (users ds) = length (texts ds)" and "texts ds \<noteq> []" and "0 < batch_size ds"
    and "0 < max_len ds" and "\<forall>t \<in> set (texts ds). t \<noteq> []"
  shows "eval_pre (prepare ds v uv)"
  using assms prepare_wf [OF assms(1)] by (auto simp: eval_pre_def prepare_seq_lens list_all_iff)

section \<open>Facts about greedy decoding\<close>

text \<open>The reference: the first index of a maximum.\<close>

definition is_first_max :: "real list \<Rightarrow> nat \<Rightarrow> bool" where
  "is_first_max ps i \<longleftrightarrow> i < length ps \<and> list_all (\<lambda>p. p \<le> ps ! i) ps \<and> list_all (\<lambda>p. p < ps ! i) (take i ps)"

lemma is_first_max_snoc:
  assumes "is_first_max xs bi" and "length xs = i"
  shows "xs ! bi < q \<Longrightarrow> is_first_max (xs @ [q]) i"
    and "\<not> xs ! bi < q \<Longrightarrow> is_first_max (xs @ [q]) bi"
  using assms by (auto simp: is_first_max_def list_all_iff nth_append)

lemma argmax_loop_first_max:
  "is_first_max xs bi \<Longrightarrow> bv = xs ! bi \<Longrightarrow> length xs = i \<Longrightarrow>
     is_first_max (xs @ qs) (argmax_loop qs i bi bv)"
proof (induction qs arbitrary: xs i bi bv)
  case Nil
  then show ?case by simp
next
  case (Cons q qs)
  show ?case
  proof (cases "bv < q")
    case True
    have "is_first_max (xs @ [q]) i" using is_first_max_snoc(1) [OF Cons.prems(1,3)] True Cons.prems(2) by simp
    then show ?thesis using Cons.IH [where xs = "xs @ [q]" and i = "Suc i" and bi = i and bv = q] True Cons.prems(3) by (simp add: nth_append)
  next
    case False
    have f: "is_first_max (xs @ [q]) bi" using is_first_max_snoc(2) [OF Cons.prems(1,3)] False Cons.prems(2) by simp
    have "bv = (xs @ [q]) ! bi" using Cons.prems(1,2) by (simp add: is_first_max_def nth_append)
    then show ?thesis using Cons.IH [OF f] False Cons.prems(3) by simp
  qed
qed

lemma py_argmax_first_max: "ps \<noteq> [] \<Longrightarrow> \<exists>i. py_argmax ps = Inr i \<and> is_first_max ps i"
proof -
  assume "ps \<noteq> []"
  then obtain p qs where ps: "ps = p # qs" by (cases ps) auto
  have "is_first_max [p] 0" by (simp add: is_first_max_def)
  then have "is_first_max ([p] @ qs) (argmax_loop qs 1 0 p)"
    by (rule argmax_loop_first_max) simp_all
  then show ?thesis by (simp add: py_argmax_def ps)
qed

lemma py_argmax_bound: "py_argmax ps = Inr i \<Longrightarrow> i < length ps"
  using py_argmax_first_max [of ps] by (cases ps) (auto simp: py_argmax_def is_first_max_def)

definition step_outputs :: "('m \<Rightarrow> nat \<Rightarrow> 'h \<Rightarrow> real list \<times> 'h) \<Rightarrow> nat \<Rightarrow> bool" where
  "step_outputs step V \<longleftrightarrow> (\<forall>m i h. length (fst (step m i h)) = V)"

lemma greedy_loop_total:
  assumes "step_outputs step (vocab_size v)" and "vocab_wf v"
  shows "\<exists>ws. greedy_loop step m v k w h = Inr ws \<and> length ws = k \<and> set ws \<subseteq> set (idx_to_word v)"
proof (induction k arbitrary: w h)
  case 0
  then show ?case by simp
next
  case (Suc k)
  obtain probs h' where ph: "step m (vocab_lookup v w) h = (probs, h')" by fastforce
  have "length probs = vocab_size v" using assms(1) ph by (metis step_outputs_def fst_conv)
  then have "probs \<noteq> []" using vocab_size_pos [OF assms(2)] by auto
  then obtain i where i: "py_argmax probs = Inr i" using py_argmax_first_max by blast
  have iv: "i < vocab_size v"
    using py_argmax_bound [OF i] \<open>length probs = vocab_size v\<close> by simp
  obtain ws where ws: "greedy_loop step m v k (idx_to_word v ! i) h' = Inr ws" "length ws = k"
    "set ws \<subseteq> set (idx_to_word v)" using Suc.IH by blast
  have "idx_to_word v ! i \<in> set (idx_to_word v)" using iv by (simp add: vocab_size_def)
  then show ?case using ph i ws vocab_word_ok [OF iv] by simp
qed

section \<open>Facts about the script's datasets\<close>

lemma prepare_rows:
  "rows (prepare ds v uv) = map (\<lambda>t. fst (prepare_row (max_len ds) v t)) (texts ds)"
  by (simp add: prepare_def Let_def comp_def)

lemma read_data_texts_nonempty:
  "read_data md limit c = Inr (us, ts) \<Longrightarrow> t \<in> set ts \<Longrightarrow> t \<noteq> []"
  using read_data_texts_wf [of md limit c us ts t] by (auto simp: tokens_wf_def)

lemma setup_train_pre:
  assumes "read_data Train default_limit c = Inr (us, ts)" and "ts \<noteq> []" and "0 < bs"
  shows "\<exists>st. rnnlm_setup Train d bs sd f c = Inr st \<and> train_pre (s_vocab st) (s_dataset st)"
proof -
  let ?v = "make_from_data ts 20" and ?uv = "make_from_data (map (\<lambda>u. [u]) us) 50"
  have len: "length us = length ts" using read_data_records_wf [OF assms(1)] by simp
  have "ids_below (prepare (raw_dataset bs sd us ts) ?v ?uv) (vocab_size ?v) (vocab_size ?uv)"
    by (rule prepare_ids_below) (rule make_from_data_wf)+
  then have "train_pre ?v (prepare (raw_dataset bs sd us ts) ?v ?uv)"
    using prepare_wf [of "raw_dataset bs sd us ts" ?v ?uv] len assms(2,3)
    by (auto simp: train_pre_def new_dataset_def)
  then show ?thesis using rnnlm_setup_Train [OF assms(1)] by simp
qed

lemma setup_eval_pre:
  assumes "read_data md default_limit c = Inr (us, ts)" and "md \<noteq> Train" and "md \<noteq> Debug"
    and "ts \<noteq> []" and "0 < bs" and "load_vocabs d f = Inr (v, uv)"
  shows "rnnlm_setup md d bs sd f c =
           Inr \<lparr>s_vocab = v, s_uvocab = uv, s_dataset = prepare (raw_dataset bs sd us ts) v uv, s_fs = f\<rparr>"
    and "eval_pre (prepare (raw_dataset bs sd us ts) v uv)"
    and "cur (prepare (raw_dataset bs sd us ts) v uv) = 0"
proof -
  show "rnnlm_setup md d bs sd f c =
          Inr \<lparr>s_vocab = v, s_uvocab = uv, s_dataset = prepare (raw_dataset bs sd us ts) v uv, s_fs = f\<rparr>"
    using rnnlm_setup_load [OF assms(1,2)] assms(3,6) by simp
  have len: "length us = length ts" using read_data_records_wf [OF assms(1)] by simp
  show "eval_pre (prepare (raw_dataset bs sd us ts) v uv)"
    using prepare_eval_pre [of "raw_dataset bs sd us ts"] len assms(4,5) read_data_texts_nonempty [OF assms(1)]
    by (simp add: new_dataset_def rnnlm_max_len_def)
qed simp

section \<open>Properties of the driver\<close>

lemma build_vocabs_no_NL:
  assumes "read_data md limit c = Inr (us, ts)"
  shows "list_all (\<lambda>w. NL \<notin> set w) (idx_to_word (fst (build_vocabs us ts)))"
    and "list_all (\<lambda>w. NL \<notin> set w) (idx_to_word (snd (build_vocabs us ts)))"
proof -
  show "list_all (\<lambda>w. NL \<notin> set w) (idx_to_word (fst (build_vocabs us ts)))"
    unfolding build_vocabs_def fst_conv by (rule make_from_data_no_NL) (rule read_data_no_NL(1) [OF assms])
  have "concat (map (\<lambda>u. [u]) us) = us" by (induction us) simp_all
  then show "list_all (\<lambda>w. NL \<notin> set w) (idx_to_word (snd (build_vocabs us ts)))"
    unfolding build_vocabs_def snd_conv by (intro make_from_data_no_NL) (use read_data_no_NL(2) [OF assms] in simp)
qed

lemma sample_read_Train:
  "read_data Train default_limit (sample_corpus 3) =
     Inr ([''u'', ''u''], [tokenize (''w'' @ [NL]), tokenize (''w'' @ [NL])])"
  by (simp add: read_data_records sample_lines_ok py_lines_sample_corpus numeral_3_eq_3 read_records_Cons
      default_limit_def in_partition_def record_of_def line_ok_def split_sep_def TAB_def NL_def, simp add: read_records_def)

lemma sample_read_Eval:
  "read_data Eval default_limit (sample_corpus 3) = Inr ([''u''], [tokenize (''w'' @ [NL])])"
  by (simp add: read_data_records sample_lines_ok py_lines_sample_corpus numeral_3_eq_3 read_records_Cons
      default_limit_def in_partition_def record_of_def line_ok_def split_sep_def TAB_def NL_def, simp add: read_records_def)

text \<open>
  C7. The vocabularies survive the file system: after a train run has built and saved
  them, a later evaluation or debug run of the script in the same experiment directory
  loads exactly the vocabularies the train run built (word and user name).
\<close>

theorem train_then_load_vocabs:
  assumes "read_data Train default_limit c1 = Inr (us1, ts1)"
    and "read_data md default_limit c2 = Inr (us2, ts2)" and "md \<noteq> Train"
  shows "\<exists>s1 s2. rnnlm_setup Train d bs sd f c1 = Inr s1 \<and> rnnlm_setup md d bs' sd' (s_fs s1) c2 = Inr s2 \<and>
           s_vocab s2 = s_vocab s1 \<and> s_uvocab s2 = s_uvocab s1"
proof -
  obtain v uv where bv: "build_vocabs us1 ts1 = (v, uv)" by fastforce
  have s1: "rnnlm_setup Train d bs sd f c1 =
      Inr \<lparr>s_vocab = v, s_uvocab = uv, s_dataset = prepare (raw_dataset bs sd us1 ts1) v uv,
           s_fs = save_vocabs d v uv f\<rparr>"
    using rnnlm_setup_Train [OF assms(1)] bv by (simp add: build_vocabs_def)
  have "load_vocabs d (save_vocabs d v uv f) = Inr (v, uv)"
    using build_vocabs_no_NL [OF assms(1)] bv make_from_data_wf
    by (intro load_save_vocabs) (auto simp: build_vocabs_def)
  then show ?thesis
    using s1 rnnlm_setup_load [OF assms(2,3), of d bs' sd' "save_vocabs d v uv f"] by simp
qed

theorem train_then_load_vocabs_witness:
  "\<exists>s1 s2. rnnlm_setup Train ''exp'' 2 7 Map.empty (sample_corpus 3) = Inr s1 \<and>
     rnnlm_setup Eval ''exp'' 1 3 (s_fs s1) (sample_corpus 3) = Inr s2 \<and>
     s_vocab s2 = s_vocab s1 \<and> s_uvocab s2 = s_uvocab s1"
  using train_then_load_vocabs [OF sample_read_Train sample_read_Eval] by simp

lemma prepare_train_pre:
  assumes "length us = length ts" and "ts \<noteq> []" and "0 < bs" and "vocab_wf v" and "vocab_wf uv"
  shows "train_pre v (prepare (raw_dataset bs sd us ts) v uv)"
proof -
  have "ids_below (prepare (raw_dataset bs sd us ts) v uv) (vocab_size v) (vocab_size uv)"
    using assms(4,5) by (rule prepare_ids_below)
  then show ?thesis
    using prepare_wf [of "raw_dataset bs sd us ts" v uv] assms(1-3)
    by (auto simp: train_pre_def new_dataset_def)
qed

lemma rnnlm_eval_result:
  assumes "eval_pre ds"
  shows "\<exists>ps tlp ds'. rnnlm_eval cost m ds =
           Inr (ps, sum_list (map (\<lambda>i. seq_lens ds ! i)
                   (pass_indices ((length (order ds) + batch_size ds - 1) div batch_size ds) ds)), tlp, ds') \<and>
           length ps = (length (order ds) + batch_size ds - 1) div batch_size ds"
proof -
  have "phase ds = Ready" "0 < batch_size ds" using assms by (simp_all add: eval_pre_def)
  then have "get_num_batches ds = Inr ((length (order ds) + batch_size ds - 1) div batch_size ds)"
    by (rule get_num_batches_eq)
  then show ?thesis
    using eval_loop_result [OF assms, where cost = cost and m = m and twc = 0 and tlp = 0
        and k = "(length (order ds) + batch_size ds - 1) div batch_size ds"]
    by (simp add: rnnlm_eval_def)
qed

text \<open>
  C8. In train mode the script runs to completion: for a corpus whose train partition
  is non-empty and a positive batch size, the setup and all 800000 iterations of
  \<open>Train\<close> succeed (no exception from reading, the dataset, the vocabulary lookups of
  the logged text or the batches), whatever the model computes, and the experiment
  directory holds the two saved vocabularies.
\<close>

theorem rnnlm_main_train_total:
  assumes "read_data Train default_limit c = Inr (us, ts)" and "ts \<noteq> []" and "0 < bs"
  shows "\<exists>evs. rnnlm_main Train d bs sd f c run cost step m0 restored h0 =
           Inr (Trained evs, save_vocabs d (make_from_data ts 20) (make_from_data (map (\<lambda>u. [u]) us) 50) f)"
proof -
  let ?v = "make_from_data ts 20" and ?uv = "make_from_data (map (\<lambda>u. [u]) us) 50"
  have len: "length us = length ts" using read_data_records_wf [OF assms(1)] by simp
  have pre: "train_pre ?v (prepare (raw_dataset bs sd us ts) ?v ?uv)"
    using len assms(2,3) make_from_data_wf make_from_data_wf by (rule prepare_train_pre)
  have "\<exists>r. train run ?v (prepare (raw_dataset bs sd us ts) ?v ?uv) m0 = Inr r"
    unfolding train_def by (rule train_loop_total [OF pre])
  then obtain r where "train run ?v (prepare (raw_dataset bs sd us ts) ?v ?uv) m0 = Inr r" ..
  then show ?thesis using rnnlm_setup_Train [OF assms(1)] by (cases r) (simp add: rnnlm_main_def)
qed

theorem rnnlm_main_train_total_witness:
  "\<exists>evs. rnnlm_main Train ''exp'' 1 0 Map.empty (sample_corpus 3) (\<lambda>m fd. (0::real, m)) (\<lambda>m fd. 0)
      (\<lambda>m i h. ([], h)) (0::nat) (Inr 0) () =
    Inr (Trained evs, save_vocabs ''exp'' (make_from_data [tokenize (''w'' @ [NL]), tokenize (''w'' @ [NL])] 20)
                        (make_from_data (map (\<lambda>u. [u]) [''u'', ''u'']) 50) Map.empty)"
  by (rule rnnlm_main_train_total [OF sample_read_Train]) simp_all

text \<open>
  C9. The checkpoint schedule of \<open>Train\<close>: a completed run saves the model at
  iterations 0, 1000, ..., 799000 (800 checkpoints) and logs at every 25th iteration;
  the last checkpoint is taken at iteration 799000, so the updates of the last 999
  iterations are never saved.
\<close>

theorem train_checkpoints:
  assumes "train run v ds m = Inr (evs, r)"
  shows "ckpt_steps evs = map (\<lambda>j. 1000 * j) [0..<800] \<and> last (ckpt_steps evs) = 799000 \<and>
         log_steps evs = map (\<lambda>j. 25 * j) [0..<32000]"
proof -
  have s: "ckpt_steps evs = filter (\<lambda>j. j mod 1000 = 0) [0..<1000 * 800] \<and>
           log_steps evs = filter (\<lambda>j. j mod 25 = 0) [0..<25 * 32000]"
    using train_loop_schedule [of run v 0 train_iterations ds m evs r] assms
    by (simp only: train_def train_iterations_def) simp
  have c: "filter (\<lambda>j. j mod 1000 = 0) [0..<1000 * 800] = map (\<lambda>j. 1000 * j) [0..<(800::nat)]"
    by (rule filter_mod_upt_mult) simp
  have l: "filter (\<lambda>j. j mod 25 = 0) [0..<25 * 32000] = map (\<lambda>j. 25 * j) [0..<(32000::nat)]"
    by (rule filter_mod_upt_mult) simp
  have "last (map (\<lambda>j. 1000 * j) [0..<(800::nat)]) = 799000" by (simp add: last_map)
  with s c l show ?thesis by simp
qed

definition sample_vocab :: vocab where "sample_vocab = make_from_data [] 20"

definition sample_ds :: "nat \<Rightarrow> nat \<Rightarrow> dataset" where
  "sample_ds bs k = prepare (raw_dataset bs 0 (replicate k ''u'') (replicate k [BOS, EOS])) sample_vocab sample_vocab"

lemma sample_vocab_wf: "vocab_wf sample_vocab"
  by (simp add: sample_vocab_def make_from_data_wf)

lemma sample_ds_train_pre: "0 < bs \<Longrightarrow> 0 < k \<Longrightarrow> train_pre sample_vocab (sample_ds bs k)"
  unfolding sample_ds_def by (rule prepare_train_pre) (simp_all add: sample_vocab_wf)

lemma sample_ds_eval_pre: "0 < bs \<Longrightarrow> 0 < k \<Longrightarrow> eval_pre (sample_ds bs k) \<and> cur (sample_ds bs k) = 0"
  unfolding sample_ds_def by (auto intro: prepare_eval_pre simp: new_dataset_def rnnlm_max_len_def)

theorem train_checkpoints_witness:
  "\<exists>evs r. train (\<lambda>m fd. (0::real, m)) sample_vocab (sample_ds 1 1) (0::nat) = Inr (evs, r) \<and>
     ckpt_steps evs = map (\<lambda>j. 1000 * j) [0..<800] \<and> last (ckpt_steps evs) = 799000 \<and>
     log_steps evs = map (\<lambda>j. 25 * j) [0..<32000]"
proof -
  have "\<exists>r. train (\<lambda>m fd. (0::real, m)) sample_vocab (sample_ds 1 1) (0::nat) = Inr r"
    unfolding train_def by (rule train_loop_total [OF sample_ds_train_pre]) simp_all
  then obtain evs r where h: "train (\<lambda>m fd. (0::real, m)) sample_vocab (sample_ds 1 1) (0::nat) = Inr (evs, r)"
    by auto
  show ?thesis using h train_checkpoints [OF h] by blast
qed

lemma mod_stream_sum:
  fixes f :: "'a \<Rightarrow> nat"
  assumes "length xs = n" and "0 < n" and "n \<le> m" and "\<forall>x \<in> set xs. 0 < f x"
  shows "sum_list (map f (map (\<lambda>i. xs ! (i mod n)) [0..<m])) = sum_list (map f xs) \<longleftrightarrow> m = n"
proof -
  let ?g = "\<lambda>i. xs ! (i mod n)"
  have split: "[0..<m] = [0..<n] @ [n..<m]" using upt_add_eq_append [of 0 n "m - n"] assms(3) by simp
  have first: "map ?g [0..<n] = xs" using assms(1) by (simp add: list_eq_iff_nth_eq)
  have pos: "0 < f (?g i)" for i
  proof -
    have "?g i \<in> set xs" using assms(1,2) by simp
    with assms(4) show ?thesis by blast
  qed
  have "sum_list (map f (map ?g [n..<m])) = 0 \<longleftrightarrow> [n..<m] = []"
  proof
    assume s: "sum_list (map f (map ?g [n..<m])) = 0"
    show "[n..<m] = []"
    proof (rule ccontr)
      assume "[n..<m] \<noteq> []"
      then have "[n..<m] = n # [Suc n..<m]" by (intro upt_conv_Cons) simp
      then have "0 < sum_list (map f (map ?g [n..<m]))" using pos [of n] by simp
      with s show False by linarith
    qed
  next
    assume e: "[n..<m] = []"
    show "sum_list (map f (map ?g [n..<m])) = 0" by (simp only: e list.map sum_list.Nil)
  qed
  then show ?thesis using assms(2,3) by (simp add: split first)
qed

text \<open>
  C10. An evaluation pass never divides by zero and prints one perplexity per batch of
  \<open>GetNumBatches()\<close>; but its word count is the number of tokens of the evaluation
  set only when the batch size divides the number of records: otherwise the last batch
  wraps around to the first records, which are counted twice.
\<close>

theorem eval_word_count:
  assumes "eval_pre ds" and "cur ds = 0"
  shows "\<exists>ps twc tlp ds'. rnnlm_eval cost m ds = Inr (ps, twc, tlp, ds') \<and>
           length ps = (length (texts ds) + batch_size ds - 1) div batch_size ds \<and>
           (twc = sum_list (seq_lens ds) \<longleftrightarrow> batch_size ds dvd length (texts ds))"
proof -
  from assms(1) have wf: "ds_wf ds" and rd: "phase ds = Ready" and b: "0 < batch_size ds"
    and pos: "list_all (\<lambda>l. 0 < l) (seq_lens ds)" by (simp_all add: eval_pre_def)
  let ?n = "length (order ds)" and ?b = "batch_size ds"
  let ?K = "(?n + ?b - 1) div ?b" and ?f = "\<lambda>i. seq_lens ds ! i"
  have n: "?n = length (texts ds)" using wf rd by (rule length_order)
  obtain ps tlp ds' where r: "rnnlm_eval cost m ds = Inr (ps, sum_list (map ?f (pass_indices ?K ds)), tlp, ds')"
    and l: "length ps = ?K"
    using rnnlm_eval_result [OF assms(1), of cost m] by blast
  have P: "pass_indices ?K ds = map (\<lambda>i. order ds ! (i mod ?n)) [0..<?K * ?b]"
    using b assms(2) by (rule eval_pass_indices)
  have sl: "length (seq_lens ds) = length (texts ds)" and
    perm: "mset (order ds) = mset [0..<length (texts ds)]" using wf rd by (simp_all add: ds_wf_def)
  have "\<forall>i \<in> set (order ds). 0 < ?f i"
    using order_bound [OF wf rd] pos sl by (auto simp: list_all_iff)
  then have "sum_list (map ?f (map (\<lambda>i. order ds ! (i mod ?n)) [0..<?K * ?b])) = sum_list (map ?f (order ds))
             \<longleftrightarrow> ?K * ?b = ?n"
    using ceil_div_mult_ge [OF b, of ?n] n assms(1) by (intro mod_stream_sum) (simp_all add: eval_pre_def)
  moreover have "sum_list (map ?f (order ds)) = sum_list (seq_lens ds)"
    using perm sl by (intro sum_list_map_perm) simp
  moreover have "?K * ?b = ?n \<longleftrightarrow> ?b dvd ?n" using b by (rule ceil_div_mult_eq_iff)
  ultimately show ?thesis using r l n P by auto
qed

theorem eval_word_count_witness:
  "eval_pre (sample_ds 2 3) \<and> cur (sample_ds 2 3) = 0 \<and>
   (\<exists>ps twc tlp ds'. rnnlm_eval (\<lambda>m fd. 0::real) (0::nat) (sample_ds 2 3) = Inr (ps, twc, tlp, ds') \<and>
      length ps = 2 \<and> twc \<noteq> sum_list (seq_lens (sample_ds 2 3)))"
proof -
  have pre: "eval_pre (sample_ds 2 3)" "cur (sample_ds 2 3) = 0" using sample_ds_eval_pre [of 2 3] by simp_all
  have t: "length (texts (sample_ds 2 3)) = 3" "batch_size (sample_ds 2 3) = 2"
    by (simp_all add: sample_ds_def new_dataset_def)
  show ?thesis using pre eval_word_count [OF pre, of "\<lambda>m fd. 0::real" 0] by (simp add: t)
qed

lemma sample_vocab_words: "idx_to_word sample_vocab = [UNK]"
  by (simp add: sample_vocab_def idx_to_word_make kept_tokens_def)

lemma sample_vocabs_saved:
  "load_vocabs d (save_vocabs d sample_vocab sample_vocab f) = Inr (sample_vocab, sample_vocab)"
  by (rule load_save_vocabs) (simp_all add: sample_vocab_wf sample_vocab_words UNK_no_NL)

text \<open>
  C11. In eval mode, with both vocabularies in the experiment directory and a restored
  model, the script evaluates without an exception (in particular without the
  \<open>ZeroDivisionError\<close> of the perplexity) and prints one perplexity for each of the
  \<open>ceil(n / batch_size)\<close> batches of the \<open>n\<close> evaluation records.
\<close>

theorem rnnlm_main_eval_ok:
  assumes "read_data Eval default_limit c = Inr (us, ts)" and "ts \<noteq> []" and "0 < bs"
    and "load_vocabs d f = Inr (v, uv)"
  shows "\<exists>ps. rnnlm_main Eval d bs sd f c run cost step m0 (Inr m) h0 = Inr (Evaluated ps, f) \<and>
           length ps = (length ts + bs - 1) div bs"
proof -
  have en: "Eval \<noteq> Train" "Eval \<noteq> Debug" by simp_all
  note S = setup_eval_pre [OF assms(1) en assms(2,3,4), of sd]
  obtain ps twc tlp ds' where e: "rnnlm_eval cost m (prepare (raw_dataset bs sd us ts) v uv) = Inr (ps, twc, tlp, ds')"
    and l: "length ps = (length ts + bs - 1) div bs"
    using rnnlm_eval_result [OF S(2), of cost m] by (auto simp: new_dataset_def)
  show ?thesis using S(1) e l by (simp add: rnnlm_main_def)
qed

theorem rnnlm_main_eval_ok_witness:
  "\<exists>ps. rnnlm_main Eval ''exp'' 1 0 (save_vocabs ''exp'' sample_vocab sample_vocab Map.empty) (sample_corpus 3)
      (\<lambda>m fd. (0::real, m)) (\<lambda>m fd. 0) (\<lambda>m i h. ([], h)) (0::nat) (Inr 0) () =
      Inr (Evaluated ps, save_vocabs ''exp'' sample_vocab sample_vocab Map.empty) \<and> length ps = 1"
proof -
  have "\<exists>ps. rnnlm_main Eval ''exp'' 1 0 (save_vocabs ''exp'' sample_vocab sample_vocab Map.empty) (sample_corpus 3)
      (\<lambda>m fd. (0::real, m)) (\<lambda>m fd. 0) (\<lambda>m i h. ([], h)) (0::nat) (Inr 0) () =
      Inr (Evaluated ps, save_vocabs ''exp'' sample_vocab sample_vocab Map.empty) \<and>
      length ps = (length [tokenize (''w'' @ [NL])] + 1 - 1) div 1"
    by (rule rnnlm_main_eval_ok [OF sample_read_Eval _ _ sample_vocabs_saved]) simp_all
  then show ?thesis by simp
qed

text \<open>
  C12. Evaluation or decoding in an experiment directory without a saved word
  vocabulary fails with \<open>IOError\<close> from \<open>Vocab.Load\<close> before anything else runs.
\<close>

theorem missing_vocab_IOError:
  assumes "read_data md default_limit c = Inr r" and "md \<noteq> Train" and "f (word_vocab_path d) = None"
  shows "rnnlm_main md d bs sd f c run cost step m0 restored h0 = Inl IOError"
proof -
  obtain us ts where r: "r = (us, ts)" by fastforce
  have "load_vocabs d f = Inl IOError" using assms(3) by (simp add: load_vocabs_def vocab_load_def)
  then show ?thesis using rnnlm_setup_load [OF assms(1) [unfolded r] assms(2)] by (simp add: rnnlm_main_def)
qed

theorem missing_vocab_IOError_witness:
  "rnnlm_main Eval ''exp'' 1 0 Map.empty (sample_corpus 3) (\<lambda>m fd. (0::real, m)) (\<lambda>m fd. 0)
      (\<lambda>m i h. ([], h)) (0::nat) (Inr 0) () = Inl IOError"
  by (rule missing_vocab_IOError [OF sample_read_Eval]) simp_all

lemma prepare_row_nth:
  "j < min (length t) L \<Longrightarrow> fst (prepare_row L v t) ! j = vocab_lookup v (t ! j)"
  by (simp add: prepare_row_def Let_def nth_append)

text \<open>
  C13. The feed trains next-token prediction: for every row \<open>k\<close> of a batch and every
  position \<open>j\<close> with \<open>j + 1\<close> inside the row's length, the input \<open>x[k, j]\<close> is the id of
  the record's token \<open>j\<close> and the target \<open>y[k, j]\<close> the id of its token \<open>j + 1\<close>.
\<close>

theorem feed_next_token:
  assumes "length (users ds) = length (texts ds)" and "get_next_batch (prepare ds v uv) = Inr (b, ds')"
    and "k < batch_size ds" and "Suc j < b_seq_len b ! k"
  shows "fx (make_feed b) ! k ! j = vocab_lookup v (texts ds ! (batch_indices (prepare ds v uv) ! k) ! j) \<and>
         fy (make_feed b) ! k ! j = vocab_lookup v (texts ds ! (batch_indices (prepare ds v uv) ! k) ! Suc j)"
proof -
  let ?P = "prepare ds v uv" and ?L = "max_len ds"
  let ?i = "batch_indices ?P ! k"
  let ?t = "texts ds ! ?i"
  have wf: "ds_wf ?P" using assms(1) by (rule prepare_wf)
  from get_next_batch_Inr [OF assms(2)] have
    ne: "order ?P \<noteq> []" and tk: "tok_ids b ! k = rows ?P ! ?i" and sk: "b_seq_len b ! k = seq_lens ?P ! ?i"
    using assms(3) by auto
  have i: "?i < length (texts ds)"
    using batch_indices_bound [OF wf prepare_phase ne, of ?i] assms(3) by simp
  have row: "tok_ids b ! k = fst (prepare_row ?L v ?t)" using tk i by (simp add: prepare_rows)
  have len: "b_seq_len b ! k = min (length ?t) ?L" using sk i by (simp add: prepare_seq_lens)
  have lrow: "length (tok_ids b ! k) = ?L" using row by (simp add: prepare_row_length)
  have lr: "length (tok_ids b) = batch_size ds" using get_next_batch_Inr [OF assms(2)] by simp
  have jl: "j < length (butlast (fst (prepare_row ?L v ?t)))" using assms(4) len by (simp add: prepare_row_length) arith
  have jt: "j < length (tl (fst (prepare_row ?L v ?t)))" using assms(4) len by (simp add: prepare_row_length) arith
  have "fx (make_feed b) ! k ! j = fst (prepare_row ?L v ?t) ! j"
    using lr assms(3) by (simp add: make_feed_def nth_butlast [OF jl] row)
  moreover have "fy (make_feed b) ! k ! j = fst (prepare_row ?L v ?t) ! Suc j"
    using lr assms(3) by (simp add: make_feed_def nth_tl [OF jt] row)
  ultimately show ?thesis using assms(4) len by (simp add: prepare_row_nth)
qed

definition sample_text :: "token list" where "sample_text = [BOS, ''w'', EOS]"

definition sample_wvocab :: vocab where "sample_wvocab = make_from_data [sample_text] 1"

definition sample_wds :: dataset where
  "sample_wds = prepare (raw_dataset 1 0 [''u''] [sample_text]) sample_wvocab sample_wvocab"

lemma sample_wds_batch:
  obtains b where "get_next_batch sample_wds = Inr (b, advance sample_wds)"
    "batch_indices sample_wds = [0]" "b_seq_len b = [3]"
proof -
  have wf: "ds_wf sample_wds" unfolding sample_wds_def by (rule prepare_wf) simp
  obtain b where g: "get_next_batch sample_wds = Inr (b, advance sample_wds)"
    using get_next_batch_ok [OF wf] by (auto simp: sample_wds_def)
  have bi: "batch_indices sample_wds = [0]"
    by (simp add: sample_wds_def batch_indices_def prepare_def Let_def new_dataset_def)
  have "b_seq_len b = [3]" using get_next_batch_Inr [OF g] bi
    by (simp add: sample_wds_def prepare_seq_lens sample_text_def rnnlm_max_len_def new_dataset_def)
  with g bi show ?thesis using that by blast
qed

theorem feed_next_token_witness:
  "\<exists>b ds'. get_next_batch sample_wds = Inr (b, ds') \<and> Suc 1 < b_seq_len b ! 0 \<and>
     fx (make_feed b) ! 0 ! 1 = vocab_lookup sample_wvocab ''w'' \<and>
     fy (make_feed b) ! 0 ! 1 = vocab_lookup sample_wvocab EOS"
proof -
  obtain b where g: "get_next_batch sample_wds = Inr (b, advance sample_wds)"
    and bi: "batch_indices sample_wds = [0]" and sl: "b_seq_len b = [3]" by (rule sample_wds_batch)
  have "fx (make_feed b) ! 0 ! 1 = vocab_lookup sample_wvocab (texts (raw_dataset 1 0 [''u''] [sample_text]) !
            (batch_indices (prepare (raw_dataset 1 0 [''u''] [sample_text]) sample_wvocab sample_wvocab) ! 0) ! 1) \<and>
        fy (make_feed b) ! 0 ! 1 = vocab_lookup sample_wvocab (texts (raw_dataset 1 0 [''u''] [sample_text]) !
            (batch_indices (prepare (raw_dataset 1 0 [''u''] [sample_text]) sample_wvocab sample_wvocab) ! 0) ! Suc 1)"
    by (rule feed_next_token [OF _ g [unfolded sample_wds_def]]) (simp_all add: sl new_dataset_def)
  moreover have eq: "prepare (raw_dataset 1 0 [''u''] [sample_text]) sample_wvocab sample_wvocab = sample_wds"
    by (simp add: sample_wds_def)
  ultimately show ?thesis using g sl by (simp only: eq bi) (simp add: sample_text_def)
qed

lemma vocab_word_of_lookup:
  "vocab_wf v \<Longrightarrow> idx_to_word v ! vocab_lookup v w = (if w \<in> set (idx_to_word v) then w else UNK)"
proof -
  assume wf: "vocab_wf v"
  show ?thesis
  proof (cases "w \<in> set (idx_to_word v)")
    case True
    then show ?thesis using vocab_lookup_in [OF wf True] by simp
  next
    case False
    then have "vocab_lookup v w = 0" by (rule vocab_lookup_notin [OF wf])
    moreover have "idx_to_word v ! 0 = UNK" using wf by (cases "idx_to_word v") (auto simp: vocab_wf_def)
    ultimately show ?thesis using False by simp
  qed
qed

text \<open>
  C14. The text \<open>Train\<close> logs (lines 108--110) is the first record of the batch as the
  model sees it: its first \<open>max_len\<close> tokens joined by blanks, each word outside the
  vocabulary shown as \<open><UNK>\<close>; the lookups never raise.
\<close>

theorem log_text_words:
  assumes "length (users ds) = length (texts ds)" and "vocab_wf v" and "0 < batch_size ds"
    and "get_next_batch (prepare ds v uv) = Inr (b, ds')"
  shows "log_text v b = Inr (py_join SPACE (map (\<lambda>w. if w \<in> set (idx_to_word v) then w else UNK)
           (take (max_len ds) (texts ds ! hd (batch_indices (prepare ds v uv))))))"
proof -
  let ?P = "prepare ds v uv" and ?L = "max_len ds"
  have wf: "ds_wf ?P" using assms(1) by (rule prepare_wf)
  from get_next_batch_Inr [OF assms(4)] have ne: "order ?P \<noteq> []"
    and tk: "tok_ids b = map (\<lambda>i. rows ?P ! i) (batch_indices ?P)"
    and sk: "b_seq_len b = map (\<lambda>i. seq_lens ?P ! i) (batch_indices ?P)" by auto
  obtain i js where bi: "batch_indices ?P = i # js"
    using assms(3) by (cases "batch_indices ?P") (auto dest: arg_cong [of _ _ length])
  let ?t = "texts ds ! i"
  have i: "i < length (texts ds)" using batch_indices_bound [OF wf prepare_phase ne, of i] bi by simp
  have row: "rows ?P ! i = fst (prepare_row ?L v ?t)" and sl: "seq_lens ?P ! i = min (length ?t) ?L"
    using i by (simp_all add: prepare_rows prepare_seq_lens)
  have ids: "list_all (\<lambda>x. x < vocab_size v) (fst (prepare_row ?L v ?t))"
    using prepare_row_ids [OF assms(2)] by (auto simp: list_all_iff)
  have "log_text v b = Inr (py_join SPACE (map (\<lambda>x. idx_to_word v ! x) (take (min (length ?t) ?L) (fst (prepare_row ?L v ?t)))))"
    by (rule log_text_ok) (simp_all add: tk sk bi row sl prepare_row_length ids)
  moreover have "take (min (length ?t) ?L) (fst (prepare_row ?L v ?t)) = map (vocab_lookup v) (take ?L ?t)"
    using prepare_row_prefix [of ?L v ?t] by (simp add: prepare_row_seq_len)
  ultimately show ?thesis by (simp add: bi comp_def vocab_word_of_lookup [OF assms(2)])
qed

theorem log_text_words_witness:
  "\<exists>b ds'. get_next_batch sample_wds = Inr (b, ds') \<and>
     log_text sample_wvocab b = Inr (py_join SPACE [BOS, ''w'', EOS])"
proof -
  obtain b where g: "get_next_batch sample_wds = Inr (b, advance sample_wds)"
    and bi: "batch_indices sample_wds = [0]" by (rule sample_wds_batch)
  have wv: "vocab_wf sample_wvocab" by (simp add: sample_wvocab_def make_from_data_wf)
  have "log_text sample_wvocab b = Inr (py_join SPACE (map (\<lambda>w. if w \<in> set (idx_to_word sample_wvocab) then w else UNK)
           (take (max_len (raw_dataset 1 0 [''u''] [sample_text]))
             (texts (raw_dataset 1 0 [''u''] [sample_text]) !
               hd (batch_indices (prepare (raw_dataset 1 0 [''u''] [sample_text]) sample_wvocab sample_wvocab))))))"
    by (rule log_text_words [OF _ wv _ g [unfolded sample_wds_def]]) (simp_all add: new_dataset_def)
  moreover have "set sample_text \<subseteq> set (idx_to_word sample_wvocab)"
    by (auto simp: sample_wvocab_def set_idx_to_word_make set_kept_tokens sample_text_def BOS_def EOS_def UNK_def)
  moreover have eq: "prepare (raw_dataset 1 0 [''u''] [sample_text]) sample_wvocab sample_wvocab = sample_wds"
    by (simp add: sample_wds_def)
  ultimately show ?thesis using g
    by (simp only: eq bi) (simp add: new_dataset_def rnnlm_max_len_def sample_text_def)
qed

text \<open>
  C15. In debug mode, with the vocabularies saved and a restored model whose output
  distribution has one entry per word of the vocabulary, \<open>Greedy\<close> prints ten words
  of the vocabulary and raises nothing.
\<close>

theorem rnnlm_main_debug_ok:
  assumes "read_data Debug default_limit c = Inr r" and "load_vocabs d f = Inr (v, uv)"
    and "step_outputs step (vocab_size v)"
  shows "\<exists>ws. rnnlm_main Debug d bs sd f c run cost step m0 (Inr m) h0 = Inr (Decoded ws, f) \<and>
           length ws = 10 \<and> set ws \<subseteq> set (idx_to_word v)"
proof -
  obtain us ts where r: "r = (us, ts)" by fastforce
  have wf: "vocab_wf v" using assms(2)
    by (auto simp: load_vocabs_def intro: vocab_load_wf split: sum.splits)
  obtain ws where "greedy step m v h0 = Inr ws" "length ws = 10" "set ws \<subseteq> set (idx_to_word v)"
    using greedy_loop_total [OF assms(3) wf, of m 10 BOS h0] by (auto simp: greedy_def)
  then show ?thesis
    using rnnlm_setup_load [OF assms(1) [unfolded r], of d bs sd f] assms(2) by (simp add: rnnlm_main_def)
qed

theorem rnnlm_main_debug_ok_witness:
  "\<exists>ws. rnnlm_main Debug ''exp'' 1 0 (save_vocabs ''exp'' sample_vocab sample_vocab Map.empty) (sample_corpus 3)
      (\<lambda>m fd. (0::real, m)) (\<lambda>m fd. 0) (\<lambda>m i h. ([0], h)) (0::nat) (Inr 0) () =
      Inr (Decoded ws, save_vocabs ''exp'' sample_vocab sample_vocab Map.empty) \<and>
      length ws = 10 \<and> set ws \<subseteq> set (idx_to_word sample_vocab)"
proof -
  have r: "read_data Debug default_limit (sample_corpus 3) = Inr ([''u''], [tokenize (''w'' @ [NL])])"
    using sample_read_Eval by (simp add: read_data_Debug_Eval)
  have s: "step_outputs (\<lambda>(m::nat) (i::nat) (h::unit). ([0::real], h)) (vocab_size sample_vocab)"
    by (simp add: step_outputs_def vocab_size_def sample_vocab_words)
  show ?thesis by (rule rnnlm_main_debug_ok [OF r sample_vocabs_saved s])
qed

text \<open>
  C16. The vocabularies the script builds (lines 65--67) are well formed (the unknown
  symbol at index 0, dense indices, a bijection), and a word has an index of its own
  exactly when it occurs at least 20 times in the texts (a user name: at least 50
  times among the records), the unknown symbol itself excepted.
\<close>

theorem build_vocabs_lookup:
  "vocab_wf (fst (build_vocabs us ts)) \<and> vocab_wf (snd (build_vocabs us ts)) \<and>
   (vocab_lookup (fst (build_vocabs us ts)) w \<noteq> 0 \<longleftrightarrow> w \<noteq> UNK \<and> 20 \<le> count_list (concat ts) w) \<and>
   (vocab_lookup (snd (build_vocabs us ts)) u \<noteq> 0 \<longleftrightarrow> u \<noteq> UNK \<and> 50 \<le> count_list us u)"
proof -
  have c: "concat (map (\<lambda>u. [u]) us) = us" by (induction us) simp_all
  have in_set: "0 < count_list xs x \<Longrightarrow> x \<in> set xs" for xs :: "token list" and x
    by (metis count_list_0_iff not_less0)
  have a: "vocab_lookup (make_from_data ts 20) w \<noteq> 0 \<longleftrightarrow> w \<noteq> UNK \<and> 20 \<le> count_list (concat ts) w"
    by (subst make_from_data_lookup) (use in_set [of "concat ts" w] in auto)
  have b: "vocab_lookup (make_from_data (map (\<lambda>u. [u]) us) 50) u \<noteq> 0 \<longleftrightarrow> u \<noteq> UNK \<and> 50 \<le> count_list us u"
    by (subst make_from_data_lookup) (use in_set [of us u] in \<open>auto simp: c\<close>)
  show ?thesis using a b by (simp add: build_vocabs_def make_from_data_wf)
qed

text \<open>
  C17. The vocabularies depend only on which records were read, not on their order:
  permuting the user names and the tokens gives the same two vocabularies.
\<close>

theorem build_vocabs_order_independent:
  assumes "mset us = mset us'" and "mset (concat ts) = mset (concat ts')"
  shows "build_vocabs us ts = build_vocabs us' ts'"
proof -
  have c: "concat (map (\<lambda>u. [u]) xs) = xs" for xs :: "string list" by (induction xs) simp_all
  have "make_from_data ts 20 = make_from_data ts' 20" using assms(2) by (rule make_from_data_mset)
  moreover have "make_from_data (map (\<lambda>u. [u]) us) 50 = make_from_data (map (\<lambda>u. [u]) us') 50"
    using assms(1) by (intro make_from_data_mset) (simp add: c)
  ultimately show ?thesis by (simp add: build_vocabs_def)
qed

theorem build_vocabs_order_independent_witness:
  "mset [''a'', ''b''] = mset [''b'', ''a''] \<and> mset (concat [[''x''], [''y'']]) = mset (concat [[''y''], [''x'']]) \<and>
   build_vocabs [''a'', ''b''] [[''x''], [''y'']] = build_vocabs [''b'', ''a''] [[''y''], [''x'']]"
proof -
  have "mset [''a'', ''b''] = mset [''b'', ''a'']" "mset (concat [[''x''], [''y'']]) = mset (concat [[''y''], [''x'']])"
    by simp_all
  then show ?thesis using build_vocabs_order_independent by blast
qed

lemma load_vocabs_wf: "load_vocabs d f = Inr (v, uv) \<Longrightarrow> vocab_wf v \<and> vocab_wf uv"
  by (auto simp: load_vocabs_def intro: vocab_load_wf split: sum.splits)

lemma setup_prepared:
  assumes "rnnlm_setup md d bs sd f c = Inr st" and "md \<noteq> Debug"
  shows "\<exists>us ts. s_dataset st = prepare (raw_dataset bs sd us ts) (s_vocab st) (s_uvocab st) \<and>
           length us = length ts \<and> vocab_wf (s_vocab st) \<and> vocab_wf (s_uvocab st)"
proof (cases "read_data md default_limit c")
  case (Inl e)
  then show ?thesis using assms(1) by (simp add: rnnlm_setup_read_error)
next
  case (Inr r)
  obtain us ts where r: "read_data md default_limit c = Inr (us, ts)" using Inr by (cases r) auto
  have len: "length us = length ts" using read_data_records_wf [OF r] by simp
  show ?thesis
  proof (cases "md = Train")
    case True
    then show ?thesis using assms(1) rnnlm_setup_Train [of c us ts d bs sd f] r len
      by (auto simp: make_from_data_wf)
  next
    case False
    then obtain v uv where l: "load_vocabs d f = Inr (v, uv)"
      using assms(1) rnnlm_setup_load [OF r False, of d bs sd f] by (auto split: sum.splits)
    then have "st = \<lparr>s_vocab = v, s_uvocab = uv, s_dataset = prepare (raw_dataset bs sd us ts) v uv, s_fs = f\<rparr>"
      using assms rnnlm_setup_load [OF r False, of d bs sd f] by simp
    then show ?thesis using len load_vocabs_wf [OF l] by (intro exI [of _ us] exI [of _ ts]) simp
  qed
qed

definition batch_inv :: "nat \<Rightarrow> vocab \<Rightarrow> vocab \<Rightarrow> dataset \<Rightarrow> bool" where
  "batch_inv bs v uv ds \<longleftrightarrow> ds_wf ds \<and> phase ds = Ready \<and> texts ds \<noteq> [] \<and> batch_size ds = bs \<and>
     max_len ds = rnnlm_max_len \<and> ids_below ds (vocab_size v) (vocab_size uv)"

lemma batch_inv_step:
  assumes "batch_inv bs v uv ds"
  shows "\<exists>b. get_next_batch ds = Inr (b, advance ds) \<and> batch_shape bs rnnlm_max_len b \<and>
           list_all (list_all (\<lambda>x. x < vocab_size v)) (tok_ids b) \<and> list_all (\<lambda>x. x < vocab_size uv) (b_users b) \<and>
           batch_inv bs v uv (advance ds)"
proof -
  from assms have i: "ds_wf ds" "phase ds = Ready" "texts ds \<noteq> []" "batch_size ds = bs"
    "max_len ds = rnnlm_max_len" "ids_below ds (vocab_size v) (vocab_size uv)" by (simp_all add: batch_inv_def)
  obtain b where g: "get_next_batch ds = Inr (b, advance ds)" using get_next_batch_ok [OF i(1-3)] by blast
  note sh = get_next_batch_shape [OF i(1) g] and ib = get_next_batch_ids_below [OF i(6,1) g]
  then show ?thesis using g i by (auto simp: batch_inv_def)
qed

text \<open>
  C18. The batches the script's dataset yields have the shape the model expects: in
  train and eval mode, if any records were read, the \<open>k\<close>-th call of \<open>GetNextBatch\<close>
  (for every \<open>k\<close>) succeeds with \<open>batch_size\<close> rows of 36 ids and lengths at most 36,
  and every word id is below the size of the word vocabulary and every user id below
  the size of the user name vocabulary.
\<close>

theorem setup_batches_shape:
  assumes "rnnlm_setup md d bs sd f c = Inr st" and "md \<noteq> Debug" and "texts (s_dataset st) \<noteq> []"
  shows "\<exists>b. get_next_batch ((advance ^^ k) (s_dataset st)) = Inr (b, (advance ^^ Suc k) (s_dataset st)) \<and>
           batch_shape bs rnnlm_max_len b \<and> list_all (list_all (\<lambda>x. x < vocab_size (s_vocab st))) (tok_ids b) \<and>
           list_all (\<lambda>x. x < vocab_size (s_uvocab st)) (b_users b)"
proof -
  obtain us ts where p: "s_dataset st = prepare (raw_dataset bs sd us ts) (s_vocab st) (s_uvocab st)"
    and len: "length us = length ts" and wf: "vocab_wf (s_vocab st)" "vocab_wf (s_uvocab st)"
    using setup_prepared [OF assms(1,2)] by blast
  have "batch_inv bs (s_vocab st) (s_uvocab st) (s_dataset st)"
    using prepare_wf [of "raw_dataset bs sd us ts"] prepare_ids_below [OF wf] len assms(3)
    by (simp add: batch_inv_def p new_dataset_def)
  then have "batch_inv bs (s_vocab st) (s_uvocab st) ((advance ^^ k) (s_dataset st))"
    by (induction k) (auto dest: batch_inv_step)
  from batch_inv_step [OF this] show ?thesis by auto
qed

theorem setup_batches_shape_witness:
  "\<exists>st. rnnlm_setup Train ''exp'' 2 0 Map.empty (sample_corpus 3) = Inr st \<and> texts (s_dataset st) \<noteq> [] \<and>
     (\<exists>b. get_next_batch ((advance ^^ 5) (s_dataset st)) = Inr (b, (advance ^^ Suc 5) (s_dataset st)) \<and>
        batch_shape 2 rnnlm_max_len b \<and> list_all (list_all (\<lambda>x. x < vocab_size (s_vocab st))) (tok_ids b) \<and>
        list_all (\<lambda>x. x < vocab_size (s_uvocab st)) (b_users b))"
proof -
  obtain st where st: "rnnlm_setup Train ''exp'' 2 0 Map.empty (sample_corpus 3) = Inr st"
    and t: "texts (s_dataset st) \<noteq> []"
    using rnnlm_setup_Train [OF sample_read_Train] by (auto simp: new_dataset_def)
  show ?thesis using st t setup_batches_shape [OF st _ t, of 5] by auto
qed

end
