(* ===== verification/Distrib_Cluster.thy ===== *)
theory Distrib_Cluster
  imports Rnnlm_Driver
begin

text \<open>
  The distributed driver \<open>src/distrib.py\<close>, function \<open>main\<close> (lines 32--157). Every task
  of the cluster runs \<open>main\<close> with its own \<open>job_name\<close> and \<open>task_index\<close>; the tasks share
  the experiment directory and, through the parameter servers, the variable
  \<open>global_step\<close>. The model is a transition system: a configuration holds the shared
  file system, the marker directory \<open>READY\<close>, the program point of every parameter
  server and every worker, the global step, the chief's checkpoints and the workers'
  log records; \<open>cluster_step\<close> is one action of one task, in any interleaving.
  The actions are the lines of \<open>main\<close> that touch shared state: copying the parameter
  file, building and saving the two vocabularies and creating \<open>READY\<close> (parameter
  server 0), reading the shard, passing the \<open>READY\<close> poll and loading the vocabularies,
  the four actions of a training iteration, stopping (workers), and the chief's timed
  checkpoint. The poll, both \<open>Vocab.Load\<close> calls and \<open>Prepare\<close> (lines 79--88) form one
  action: in a fresh directory the vocabulary files are final before \<open>READY\<close> exists,
  so no other action can change what they read. The command line flags and the parsed
  \<open>params.json\<close> are fixed for a run.
\<close>

section \<open>Flags and host lists\<close>

text \<open>Lines 33--34: \<open>FLAGS.ps_hosts.split(",")\<close>, \<open>FLAGS.worker_hosts.split(",")\<close>.\<close>

definition hosts :: "string \<Rightarrow> string list" where
  "hosts s = split_sep COMMA s"

text \<open>
  The flags of one run (lines 14--28) and the values the code reads from outside the
  sources: the contents of the two corpus paths (line 52 and line 70 name different
  files), the record limit and the shuffle seed of \<open>batcher\<close>.
\<close>

record flags =
  f_expdir :: string
  f_params :: string
  f_ps_hosts :: string
  f_worker_hosts :: string
  f_ps_corpus :: string
  f_wk_corpus :: string
  f_limit :: nat
  f_seed :: nat

text \<open>The two fields of \<open>params.json\<close> the code reads (\<open>params.max_len\<close>, \<open>params.batch_size\<close>).\<close>

record params =
  p_max_len :: nat
  p_batch_size :: nat

text \<open>Line 73: \<open>num_workers=len(worker_hosts)\<close>.\<close>

definition num_workers :: "flags \<Rightarrow> nat" where
  "num_workers fl = length (hosts (f_worker_hosts fl))"

definition num_ps :: "flags \<Rightarrow> nat" where
  "num_ps fl = length (hosts (f_ps_hosts fl))"

text \<open>Line 133: the step ceiling of the training loop.\<close>

definition step_ceiling :: nat where "step_ceiling = 1000000"

section \<open>The actions of one task\<close>

text \<open>Lines 45--47: open the parameter file (\<open>IOError\<close> if absent) and copy it into the experiment directory.\<close>

definition open_params :: "flags \<Rightarrow> fs \<Rightarrow> fs result" where
  "open_params fl f =
     (case f (f_params fl) of
        None \<Rightarrow> Inl IOError
      | Some txt \<Rightarrow> Inr (f(path_join (f_expdir fl) ''params.json'' \<mapsto> txt)))"

text \<open>Lines 52--58: parameter server 0 reads the unsharded train partition, fills a dataset and builds the vocabularies.\<close>

definition ps0_build :: "flags \<Rightarrow> params \<Rightarrow> (vocab \<times> vocab) result" where
  "ps0_build fl p =
     (case shard_read_data Train (f_limit fl) None (f_ps_corpus fl) of
        Inl e \<Rightarrow> Inl e
      | Inr (us, ts) \<Rightarrow>
          (case add_data_source (new_dataset (p_max_len p + 1) (p_batch_size p) True (f_seed fl)) us ts of
             Inl e \<Rightarrow> Inl e
           | Inr _ \<Rightarrow> Inr (build_vocabs us ts)))"

text \<open>Lines 69--77: a worker reads its shard and fills its dataset.\<close>

definition worker_read :: "flags \<Rightarrow> params \<Rightarrow> nat \<Rightarrow> dataset result" where
  "worker_read fl p i =
     (case shard_read_data Train (f_limit fl) (Some (i, num_workers fl)) (f_wk_corpus fl) of
        Inl e \<Rightarrow> Inl e
      | Inr (us, ts) \<Rightarrow> add_data_source (new_dataset (p_max_len p + 1) (p_batch_size p) True (f_seed fl)) us ts)"

text \<open>Lines 84--88: after the barrier, load both vocabularies and prepare the dataset.\<close>

definition worker_load :: "flags \<Rightarrow> fs \<Rightarrow> dataset \<Rightarrow> (vocab \<times> vocab \<times> dataset) result" where
  "worker_load fl f ds =
     (case load_vocabs (f_expdir fl) f of
        Inl e \<Rightarrow> Inl e
      | Inr (v, uv) \<Rightarrow> Inr (v, uv, prepare ds v uv))"

text \<open>Line 151: a worker logs when the step it fetched is a multiple of 10.\<close>

definition log_entry :: "nat \<Rightarrow> nat \<Rightarrow> (nat \<times> nat) list" where
  "log_entry i st = (if st mod 10 = 0 then [(i, st)] else [])"

section \<open>Configurations and steps\<close>

datatype ps_pc = PsStart | PsBuilt vocab vocab | PsSavedWord vocab vocab | PsSavedUser | PsServing
  | PsFailed py_error

datatype wk_pc = WkStart | WkWaiting dataset | WkTraining vocab vocab dataset nat
  | WkRunning vocab vocab dataset bool "nat option" | WkStopped | WkFailed py_error

text \<open>
  A worker is in the managed session of lines 129--155 while it trains or runs a step;
  only then does the chief's supervisor save checkpoints.
\<close>

fun in_session :: "wk_pc \<Rightarrow> bool" where
  "in_session (WkTraining v uv ds st) = True"
| "in_session (WkRunning v uv ds inc r) = True"
| "in_session _ = False"

record cluster =
  c_fs :: fs
  c_ready :: bool
  c_ps :: "nat \<Rightarrow> ps_pc"
  c_wk :: "nat \<Rightarrow> wk_pc"
  c_gstep :: nat
  c_ckpts :: "nat list"
  c_logs :: "(nat \<times> nat) list"

text \<open>
  The start of a run: every task at the top of \<open>main\<close>, global step 0, and a file system
  and \<open>READY\<close> flag as found in the experiment directory (a fresh directory has no
  \<open>READY\<close>).
\<close>

definition init_cluster :: "fs \<Rightarrow> bool \<Rightarrow> cluster" where
  "init_cluster f r = \<lparr>c_fs = f, c_ready = r, c_ps = (\<lambda>_. PsStart), c_wk = (\<lambda>_. WkStart),
     c_gstep = 0, c_ckpts = [], c_logs = []\<rparr>"

text \<open>
  One atomic action of one task. A parameter server other than 0 copies the parameters
  and serves (line 65). Parameter server 0 builds (52--58), saves the word vocabulary
  (60), the user name vocabulary (61), and creates \<open>READY\<close> (63), which raises
  \<open>OSError\<close> if it exists. A worker \<open>i < len(worker_hosts)\<close> reads its shard (69--77),
  passes the poll once \<open>READY\<close> exists (79--88), and then loops (133--154). A loop
  iteration whose last fetched step is below the ceiling takes the next batch (138) and
  enters \<open>sess.run\<close> (148) as \<open>WkRunning v uv ds inc fetched\<close>. Inside the run the
  increment of \<open>global_step\<close> by \<open>train_op\<close> (\<open>inc\<close>) and the read of \<open>global_step\<close>
  for the fetch (\<open>fetched\<close>) are two separate actions in either order, interleaved
  with every other task's actions. The run returns once both happened, and the worker
  logs the fetched step (151--154). A worker stops at the ceiling or on the supervisor's
  stop signal (133, 157). The chief, worker 0, saves a checkpoint of the global step at
  any time while it is in its session (the supervisor's timer, lines 117--123).
\<close>


inductive cluster_step :: "flags \<Rightarrow> params \<Rightarrow> cluster \<Rightarrow> cluster \<Rightarrow> bool" for fl p where
  ps_serve: "0 < j \<Longrightarrow> j < num_ps fl \<Longrightarrow> c_ps s j = PsStart \<Longrightarrow> open_params fl (c_fs s) = Inr f' \<Longrightarrow>
     cluster_step fl p s (s\<lparr>c_fs := f', c_ps := (c_ps s)(j := PsServing)\<rparr>)"
| ps_params_fail: "j < num_ps fl \<Longrightarrow> c_ps s j = PsStart \<Longrightarrow> open_params fl (c_fs s) = Inl e \<Longrightarrow>
     cluster_step fl p s (s\<lparr>c_ps := (c_ps s)(j := PsFailed e)\<rparr>)"
| ps0_build_ok: "c_ps s 0 = PsStart \<Longrightarrow> open_params fl (c_fs s) = Inr f' \<Longrightarrow> ps0_build fl p = Inr (v, uv) \<Longrightarrow>
     cluster_step fl p s (s\<lparr>c_fs := f', c_ps := (c_ps s)(0 := PsBuilt v uv)\<rparr>)"
| ps0_build_fail: "c_ps s 0 = PsStart \<Longrightarrow> open_params fl (c_fs s) = Inr f' \<Longrightarrow> ps0_build fl p = Inl e \<Longrightarrow>
     cluster_step fl p s (s\<lparr>c_fs := f', c_ps := (c_ps s)(0 := PsFailed e)\<rparr>)"
| ps0_save_word: "c_ps s 0 = PsBuilt v uv \<Longrightarrow>
     cluster_step fl p s (s\<lparr>c_fs := (c_fs s)(word_vocab_path (f_expdir fl) \<mapsto> vocab_save v),
                             c_ps := (c_ps s)(0 := PsSavedWord v uv)\<rparr>)"
| ps0_save_user: "c_ps s 0 = PsSavedWord v uv \<Longrightarrow>
     cluster_step fl p s (s\<lparr>c_fs := (c_fs s)(username_vocab_path (f_expdir fl) \<mapsto> vocab_save uv),
                             c_ps := (c_ps s)(0 := PsSavedUser)\<rparr>)"
| ps0_ready: "c_ps s 0 = PsSavedUser \<Longrightarrow> \<not> c_ready s \<Longrightarrow>
     cluster_step fl p s (s\<lparr>c_ready := True, c_ps := (c_ps s)(0 := PsServing)\<rparr>)"
| ps0_ready_fail: "c_ps s 0 = PsSavedUser \<Longrightarrow> c_ready s \<Longrightarrow>
     cluster_step fl p s (s\<lparr>c_ps := (c_ps s)(0 := PsFailed OSError)\<rparr>)"
| wk_read: "i < num_workers fl \<Longrightarrow> c_wk s i = WkStart \<Longrightarrow> open_params fl (c_fs s) = Inr f' \<Longrightarrow>
     worker_read fl p i = Inr ds \<Longrightarrow>
     cluster_step fl p s (s\<lparr>c_fs := f', c_wk := (c_wk s)(i := WkWaiting ds)\<rparr>)"
| wk_params_fail: "i < num_workers fl \<Longrightarrow> c_wk s i = WkStart \<Longrightarrow> open_params fl (c_fs s) = Inl e \<Longrightarrow>
     cluster_step fl p s (s\<lparr>c_wk := (c_wk s)(i := WkFailed e)\<rparr>)"
| wk_read_fail: "i < num_workers fl \<Longrightarrow> c_wk s i = WkStart \<Longrightarrow> open_params fl (c_fs s) = Inr f' \<Longrightarrow>
     worker_read fl p i = Inl e \<Longrightarrow>
     cluster_step fl p s (s\<lparr>c_fs := f', c_wk := (c_wk s)(i := WkFailed e)\<rparr>)"
| wk_pass: "c_wk s i = WkWaiting ds \<Longrightarrow> c_ready s \<Longrightarrow> worker_load fl (c_fs s) ds = Inr (v, uv, ds') \<Longrightarrow>
     cluster_step fl p s (s\<lparr>c_wk := (c_wk s)(i := WkTraining v uv ds' 0)\<rparr>)"
| wk_load_fail: "c_wk s i = WkWaiting ds \<Longrightarrow> c_ready s \<Longrightarrow> worker_load fl (c_fs s) ds = Inl e \<Longrightarrow>
     cluster_step fl p s (s\<lparr>c_wk := (c_wk s)(i := WkFailed e)\<rparr>)"
| wk_begin: "c_wk s i = WkTraining v uv ds st \<Longrightarrow> st < step_ceiling \<Longrightarrow> get_next_batch ds = Inr (b, ds') \<Longrightarrow>
     cluster_step fl p s (s\<lparr>c_wk := (c_wk s)(i := WkRunning v uv ds' False None)\<rparr>)"
| wk_incr: "c_wk s i = WkRunning v uv ds False r \<Longrightarrow>
     cluster_step fl p s (s\<lparr>c_wk := (c_wk s)(i := WkRunning v uv ds True r), c_gstep := Suc (c_gstep s)\<rparr>)"
| wk_fetch: "c_wk s i = WkRunning v uv ds inc None \<Longrightarrow>
     cluster_step fl p s (s\<lparr>c_wk := (c_wk s)(i := WkRunning v uv ds inc (Some (c_gstep s)))\<rparr>)"
| wk_end: "c_wk s i = WkRunning v uv ds True (Some st') \<Longrightarrow>
     cluster_step fl p s (s\<lparr>c_wk := (c_wk s)(i := WkTraining v uv ds st'), c_logs := c_logs s @ log_entry i st'\<rparr>)"
| wk_train_fail: "c_wk s i = WkTraining v uv ds st \<Longrightarrow> st < step_ceiling \<Longrightarrow> get_next_batch ds = Inl e \<Longrightarrow>
     cluster_step fl p s (s\<lparr>c_wk := (c_wk s)(i := WkFailed e)\<rparr>)"
| wk_done: "c_wk s i = WkTraining v uv ds st \<Longrightarrow> step_ceiling \<le> st \<Longrightarrow>
     cluster_step fl p s (s\<lparr>c_wk := (c_wk s)(i := WkStopped)\<rparr>)"
| wk_stop: "c_wk s i = WkTraining v uv ds st \<Longrightarrow>
     cluster_step fl p s (s\<lparr>c_wk := (c_wk s)(i := WkStopped)\<rparr>)"
| chief_ckpt: "in_session (c_wk s 0) \<Longrightarrow>
     cluster_step fl p s (s\<lparr>c_ckpts := c_ckpts s @ [c_gstep s]\<rparr>)"

abbreviation reachable :: "flags \<Rightarrow> params \<Rightarrow> cluster \<Rightarrow> cluster \<Rightarrow> bool" where
  "reachable fl p s0 s \<equiv> (cluster_step fl p)\<^sup>*\<^sup>* s0 s"

section \<open>Facts about the actions\<close>

lemma num_workers_pos: "0 < num_workers fl"
  by (simp add: num_workers_def hosts_def length_split_sep)

lemma ps0_read: "shard_read_data Train limit None c = read_data Train limit c"
  by (simp add: shard_read_data_records valid_worker_def shard_records_None read_data_records)

lemma ps0_build_Inr:
  assumes "ps0_build fl p = Inr (v, uv)"
  shows "\<exists>us ts. read_data Train (f_limit fl) (f_ps_corpus fl) = Inr (us, ts) \<and> (v, uv) = build_vocabs us ts"
  using assms by (auto simp: ps0_build_def ps0_read split: sum.splits)

definition vocab_files :: "flags \<Rightarrow> vocab \<Rightarrow> vocab \<Rightarrow> fs \<Rightarrow> bool" where
  "vocab_files fl v uv f \<longleftrightarrow> f (word_vocab_path (f_expdir fl)) = Some (vocab_save v) \<and>
     f (username_vocab_path (f_expdir fl)) = Some (vocab_save uv)"

lemma params_path_differs:
  "path_join d ''params.json'' \<noteq> word_vocab_path d" "path_join d ''params.json'' \<noteq> username_vocab_path d"
  by (simp_all add: word_vocab_path_def username_vocab_path_def path_join_def)

lemma open_params_paths:
  "open_params fl f = Inr f' \<Longrightarrow> f' (word_vocab_path (f_expdir fl)) = f (word_vocab_path (f_expdir fl))"
  "open_params fl f = Inr f' \<Longrightarrow> f' (username_vocab_path (f_expdir fl)) = f (username_vocab_path (f_expdir fl))"
  using params_path_differs [of "f_expdir fl"]
  by (auto simp: open_params_def split: option.splits)

lemma open_params_vocab_files:
  "open_params fl f = Inr f' \<Longrightarrow> vocab_files fl v uv f' \<longleftrightarrow> vocab_files fl v uv f"
  using params_path_differs [of "f_expdir fl"]
  by (auto simp: open_params_def vocab_files_def split: option.splits)

lemma ps0_build_load:
  assumes "ps0_build fl p = Inr (v, uv)" and "vocab_files fl v uv f"
  shows "load_vocabs (f_expdir fl) f = Inr (v, uv)"
proof -
  obtain us ts where r: "read_data Train (f_limit fl) (f_ps_corpus fl) = Inr (us, ts)"
    and b: "(v, uv) = build_vocabs us ts" using ps0_build_Inr [OF assms(1)] by blast
  have "list_all (\<lambda>w. NL \<notin> set w) (idx_to_word v)" "list_all (\<lambda>w. NL \<notin> set w) (idx_to_word uv)"
    using build_vocabs_no_NL [OF r] b by (metis fst_conv snd_conv)+
  moreover have "vocab_wf v" "vocab_wf uv" using b by (auto simp: build_vocabs_def make_from_data_wf)
  ultimately show ?thesis using assms(2) by (simp add: load_vocabs_def vocab_files_def vocab_load_save)
qed

section \<open>The barrier\<close>

fun wk_ok :: "flags \<Rightarrow> params \<Rightarrow> bool \<Rightarrow> wk_pc \<Rightarrow> bool" where
  "wk_ok fl p r (WkTraining v uv ds st) \<longleftrightarrow> r \<and> ps0_build fl p = Inr (v, uv)"
| "wk_ok fl p r (WkRunning v uv ds inc f) \<longleftrightarrow> r \<and> ps0_build fl p = Inr (v, uv)"
| "wk_ok fl p r WkStopped \<longleftrightarrow> r"
| "wk_ok fl p r _ \<longleftrightarrow> True"

definition ps_ok :: "flags \<Rightarrow> params \<Rightarrow> cluster \<Rightarrow> bool" where
  "ps_ok fl p s \<longleftrightarrow>
     (c_ready s \<longleftrightarrow> c_ps s 0 = PsServing) \<and>
     (c_ps s 0 = PsServing \<longrightarrow> (\<exists>v uv. ps0_build fl p = Inr (v, uv) \<and> vocab_files fl v uv (c_fs s))) \<and>
     (\<forall>v uv. c_ps s 0 = PsBuilt v uv \<longrightarrow> ps0_build fl p = Inr (v, uv)) \<and>
     (\<forall>v uv. c_ps s 0 = PsSavedWord v uv \<longrightarrow> ps0_build fl p = Inr (v, uv) \<and>
        c_fs s (word_vocab_path (f_expdir fl)) = Some (vocab_save v)) \<and>
     (c_ps s 0 = PsSavedUser \<longrightarrow> (\<exists>v uv. ps0_build fl p = Inr (v, uv) \<and> vocab_files fl v uv (c_fs s)))"

definition barrier_inv :: "flags \<Rightarrow> params \<Rightarrow> cluster \<Rightarrow> bool" where
  "barrier_inv fl p s \<longleftrightarrow> ps_ok fl p s \<and> (\<forall>i. wk_ok fl p (c_ready s) (c_wk s i))"

lemma barrier_inv_init: "barrier_inv fl p (init_cluster f False)"
proof -
  have "wk_ok fl p False WkStart" by simp
  then show ?thesis by (simp add: barrier_inv_def ps_ok_def init_cluster_def)
qed

lemma wk_ok_mono: "wk_ok fl p r pc \<Longrightarrow> r \<longrightarrow> r' \<Longrightarrow> wk_ok fl p r' pc"
  by (cases pc) auto

lemma barrier_inv_wk:
  assumes "barrier_inv fl p s" and "wk_ok fl p (c_ready s) y"
  shows "barrier_inv fl p (s\<lparr>c_wk := (c_wk s)(i := y)\<rparr>)"
  using assms by (auto simp: barrier_inv_def ps_ok_def)

lemma barrier_inv_counters [simp]:
  "barrier_inv fl p (s\<lparr>c_gstep := g\<rparr>) = barrier_inv fl p s"
  "barrier_inv fl p (s\<lparr>c_logs := l\<rparr>) = barrier_inv fl p s"
  "barrier_inv fl p (s\<lparr>c_ckpts := ck\<rparr>) = barrier_inv fl p s"
  by (simp_all add: barrier_inv_def ps_ok_def)

lemma barrier_inv_params:
  assumes "barrier_inv fl p s" and op: "open_params fl (c_fs s) = Inr f'"
  shows "barrier_inv fl p (s\<lparr>c_fs := f'\<rparr>)"
proof -
  from assms(1) have P: "ps_ok fl p s" and W: "\<forall>i. wk_ok fl p (c_ready s) (c_wk s i)"
    by (simp_all add: barrier_inv_def)
  have "ps_ok fl p (s\<lparr>c_fs := f'\<rparr>)"
    using P op by (simp add: ps_ok_def open_params_vocab_files open_params_paths)
  then show ?thesis using W by (simp add: barrier_inv_def)
qed

lemma barrier_inv_wk_ok: "barrier_inv fl p s \<Longrightarrow> wk_ok fl p (c_ready s) (c_wk s i)"
  by (simp add: barrier_inv_def)

text \<open>A worker's own move inside its session keeps the invariant when it keeps \<open>wk_ok\<close>.\<close>

lemma barrier_inv_move:
  assumes "barrier_inv fl p s" and "c_wk s i = x" and "wk_ok fl p (c_ready s) x \<Longrightarrow> wk_ok fl p (c_ready s) y"
  shows "barrier_inv fl p (s\<lparr>c_wk := (c_wk s)(i := y)\<rparr>)"
  using assms barrier_inv_wk barrier_inv_wk_ok by metis

lemma barrier_inv_step:
  assumes "cluster_step fl p s t" and "barrier_inv fl p s"
  shows "barrier_inv fl p t"
  using assms
proof (induction rule: cluster_step.induct)
  case (ps_serve j s f')
  have "barrier_inv fl p (s\<lparr>c_fs := f'\<rparr>)" by (rule barrier_inv_params [OF ps_serve.prems ps_serve.hyps(4)])
  with ps_serve.hyps(1) show ?case by (auto simp: barrier_inv_def ps_ok_def)
next
  case (ps_params_fail j s e)
  then show ?case by (cases j) (auto simp: barrier_inv_def ps_ok_def)
next
  case (ps0_build_ok s f' v uv)
  have "barrier_inv fl p (s\<lparr>c_fs := f'\<rparr>)" by (rule barrier_inv_params [OF ps0_build_ok.prems ps0_build_ok.hyps(2)])
  with ps0_build_ok show ?case by (auto simp: barrier_inv_def ps_ok_def)
next
  case (ps0_build_fail s f' e)
  have "barrier_inv fl p (s\<lparr>c_fs := f'\<rparr>)" by (rule barrier_inv_params [OF ps0_build_fail.prems ps0_build_fail.hyps(2)])
  with ps0_build_fail show ?case by (auto simp: barrier_inv_def ps_ok_def)
next
  case (ps0_save_word s v uv)
  then show ?case by (auto simp: barrier_inv_def ps_ok_def)
next
  case (ps0_save_user s v uv)
  then show ?case using vocab_paths_differ [of "f_expdir fl"]
    by (auto simp: barrier_inv_def ps_ok_def vocab_files_def)
next
  case (ps0_ready s)
  then show ?case by (auto simp: barrier_inv_def ps_ok_def intro: wk_ok_mono)
next
  case (ps0_ready_fail s)
  then show ?case by (auto simp: barrier_inv_def ps_ok_def)
next
  case (wk_read i s f' ds)
  have "barrier_inv fl p (s\<lparr>c_fs := f'\<rparr>)" by (rule barrier_inv_params [OF wk_read.prems wk_read.hyps(3)])
  from barrier_inv_wk [OF this, of "WkWaiting ds" i] show ?case by simp
next
  case (wk_params_fail i s e)
  then show ?case by (intro barrier_inv_wk) simp_all
next
  case (wk_read_fail i s f' e)
  have "barrier_inv fl p (s\<lparr>c_fs := f'\<rparr>)" by (rule barrier_inv_params [OF wk_read_fail.prems wk_read_fail.hyps(3)])
  from barrier_inv_wk [OF this, of "WkFailed e" i] show ?case by simp
next
  case (wk_pass s i ds v uv ds')
  have "ps_ok fl p s" using wk_pass.prems by (simp add: barrier_inv_def)
  then obtain v0 uv0 where b: "ps0_build fl p = Inr (v0, uv0)" "vocab_files fl v0 uv0 (c_fs s)"
    using wk_pass.hyps(2) by (auto simp: ps_ok_def)
  then have "(v, uv) = (v0, uv0)"
    using wk_pass.hyps(3) ps0_build_load [OF b] by (simp add: worker_load_def)
  then show ?case using wk_pass b by (intro barrier_inv_wk) simp_all
next
  case (wk_load_fail s i ds e)
  then show ?case by (intro barrier_inv_wk) simp_all
next
  case (wk_begin s i v uv ds st b ds')
  from barrier_inv_move [OF wk_begin.prems wk_begin.hyps(1)] show ?case by simp
next
  case (wk_incr s i v uv ds r)
  from barrier_inv_move [OF wk_incr.prems wk_incr.hyps(1)] show ?case by simp
next
  case (wk_fetch s i v uv ds inc)
  from barrier_inv_move [OF wk_fetch.prems wk_fetch.hyps(1)] show ?case by simp
next
  case (wk_end s i v uv ds st')
  from barrier_inv_move [OF wk_end.prems wk_end.hyps(1)] show ?case by simp
next
  case (wk_train_fail s i v uv ds st e)
  then show ?case by (intro barrier_inv_wk) simp_all
next
  case (wk_done s i v uv ds st)
  from barrier_inv_move [OF wk_done.prems wk_done.hyps(1)] show ?case by simp
next
  case (wk_stop s i v uv ds st)
  from barrier_inv_move [OF wk_stop.prems wk_stop.hyps(1)] show ?case by simp
next
  case (chief_ckpt s)
  then show ?case by simp
qed

lemma barrier_inv_reachable:
  "reachable fl p (init_cluster f False) s \<Longrightarrow> barrier_inv fl p s"
  by (induction rule: rtranclp_induct) (auto intro: barrier_inv_init barrier_inv_step)
section \<open>Properties of the barrier\<close>

text \<open>
  C19. The barrier holds: in every run from a fresh experiment directory (no \<open>READY\<close>),
  a worker that trains or has stopped training has passed the poll after parameter
  server 0 created \<open>READY\<close>; parameter server 0 is then serving, and both vocabulary
  files hold what it built.
\<close>

theorem worker_after_ready:
  assumes "reachable fl p (init_cluster f False) s"
    and "c_wk s i = WkTraining v uv ds st \<or> c_wk s i = WkStopped"
  shows "c_ready s \<and> c_ps s 0 = PsServing \<and>
         (\<exists>v0 uv0. ps0_build fl p = Inr (v0, uv0) \<and> vocab_files fl v0 uv0 (c_fs s))"
proof -
  have inv: "barrier_inv fl p s" using assms(1) by (rule barrier_inv_reachable)
  then have "c_ready s" using barrier_inv_wk_ok [OF inv, of i] assms(2) by auto
  with inv show ?thesis by (auto simp: barrier_inv_def ps_ok_def)
qed

text \<open>
  C20. Every worker trains with exactly the vocabularies parameter server 0 built from
  the unsharded train partition of its corpus: the vocabularies a worker loads after
  the barrier are the \<open>MakeFromData\<close> results of lines 56--58, not merely files of the
  same name.
\<close>

theorem worker_vocabs_agree:
  assumes "reachable fl p (init_cluster f False) s" and "c_wk s i = WkTraining v uv ds st"
  shows "\<exists>us ts. read_data Train (f_limit fl) (f_ps_corpus fl) = Inr (us, ts) \<and> (v, uv) = build_vocabs us ts"
proof -
  have "wk_ok fl p (c_ready s) (c_wk s i)" using barrier_inv_reachable [OF assms(1)] by (rule barrier_inv_wk_ok)
  then have "ps0_build fl p = Inr (v, uv)" using assms(2) by simp
  then show ?thesis by (rule ps0_build_Inr)
qed

section \<open>A run to training\<close>

definition ds_ok :: "dataset \<Rightarrow> bool" where
  "ds_ok ds \<longleftrightarrow> ds_wf ds \<and> phase ds = Ready \<and> texts ds \<noteq> []"

lemma ds_ok_step:
  assumes "ds_ok ds"
  shows "\<exists>b. get_next_batch ds = Inr (b, advance ds) \<and> ds_ok (advance ds)"
proof -
  from assms have i: "ds_wf ds" "phase ds = Ready" "texts ds \<noteq> []" by (simp_all add: ds_ok_def)
  obtain b where g: "get_next_batch ds = Inr (b, advance ds)" using get_next_batch_ok [OF i] by blast
  have "ds_wf (advance ds)" using get_next_batch_shape [OF i(1) g] by simp
  with g i show ?thesis by (auto simp: ds_ok_def)
qed

lemma worker_read_ok:
  "worker_read fl p i = Inr ds \<Longrightarrow> length (users ds) = length (texts ds)"
  by (auto simp: worker_read_def add_data_source_def new_dataset_def split: sum.splits if_splits)

lemma prepare_ds_ok:
  "length (users ds) = length (texts ds) \<Longrightarrow> texts ds \<noteq> [] \<Longrightarrow> ds_ok (prepare ds v uv)"
  by (simp add: ds_ok_def prepare_wf)

text \<open>The start of a run: parameter server 0 builds, saves and creates \<open>READY\<close>, then a worker reads its shard and passes the barrier.\<close>

lemma run_ps0_ready:
  assumes "open_params fl f = Inr f1" and "ps0_build fl p = Inr (v, uv)"
  shows "reachable fl p (init_cluster f False)
           ((init_cluster f False)\<lparr>c_fs := f1(word_vocab_path (f_expdir fl) \<mapsto> vocab_save v,
                                          username_vocab_path (f_expdir fl) \<mapsto> vocab_save uv),
                                  c_ps := (\<lambda>_. PsStart)(0 := PsServing), c_ready := True\<rparr>)"
proof -
  let ?s0 = "init_cluster f False"
  define s1 where "s1 = ?s0\<lparr>c_fs := f1, c_ps := (c_ps ?s0)(0 := PsBuilt v uv)\<rparr>"
  define s2 where "s2 = s1\<lparr>c_fs := (c_fs s1)(word_vocab_path (f_expdir fl) \<mapsto> vocab_save v),
                              c_ps := (c_ps s1)(0 := PsSavedWord v uv)\<rparr>"
  define s3 where "s3 = s2\<lparr>c_fs := (c_fs s2)(username_vocab_path (f_expdir fl) \<mapsto> vocab_save uv),
                              c_ps := (c_ps s2)(0 := PsSavedUser)\<rparr>"
  define s4 where "s4 = s3\<lparr>c_ready := True, c_ps := (c_ps s3)(0 := PsServing)\<rparr>"
  have "cluster_step fl p ?s0 s1" unfolding s1_def
    by (rule cluster_step.ps0_build_ok) (simp_all add: init_cluster_def assms)
  moreover have "cluster_step fl p s1 s2" unfolding s2_def by (rule cluster_step.ps0_save_word) (simp add: s1_def)
  moreover have "cluster_step fl p s2 s3" unfolding s3_def by (rule cluster_step.ps0_save_user) (simp add: s2_def)
  moreover have "cluster_step fl p s3 s4" unfolding s4_def
    by (rule cluster_step.ps0_ready) (simp_all add: s3_def s2_def s1_def init_cluster_def)
  ultimately have "reachable fl p ?s0 s4" by (meson rtranclp.rtrancl_into_rtrancl rtranclp.rtrancl_refl)
  moreover have "s4 = ?s0\<lparr>c_fs := f1(word_vocab_path (f_expdir fl) \<mapsto> vocab_save v,
                                  username_vocab_path (f_expdir fl) \<mapsto> vocab_save uv),
                        c_ps := (\<lambda>_. PsStart)(0 := PsServing), c_ready := True\<rparr>"
    by (simp add: s4_def s3_def s2_def s1_def init_cluster_def)
  ultimately show ?thesis by simp
qed

lemma run_worker_pass:
  assumes "i < num_workers fl" and "c_wk s i = WkStart" and "c_ready s" and "open_params fl (c_fs s) = Inr f'"
    and "worker_read fl p i = Inr ds" and "load_vocabs (f_expdir fl) f' = Inr (v, uv)"
  shows "reachable fl p s (s\<lparr>c_fs := f', c_wk := (c_wk s)(i := WkTraining v uv (prepare ds v uv) 0)\<rparr>)"
proof -
  define s1 where "s1 = s\<lparr>c_fs := f', c_wk := (c_wk s)(i := WkWaiting ds)\<rparr>"
  have "cluster_step fl p s s1" unfolding s1_def by (rule cluster_step.wk_read) (use assms in simp_all)
  moreover have "cluster_step fl p s1 (s1\<lparr>c_wk := (c_wk s1)(i := WkTraining v uv (prepare ds v uv) 0)\<rparr>)"
    by (rule cluster_step.wk_pass) (use assms in \<open>simp_all add: s1_def worker_load_def\<close>)
  ultimately show ?thesis by (simp add: s1_def)
qed

text \<open>One loop iteration of a worker, with the fetch after its own increment.\<close>

lemma run_step:
  assumes "c_wk s i = WkTraining v uv ds st" and "st < step_ceiling" and "get_next_batch ds = Inr (b, ds')"
  shows "reachable fl p s (s\<lparr>c_wk := (c_wk s)(i := WkTraining v uv ds' (Suc (c_gstep s))),
           c_gstep := Suc (c_gstep s), c_logs := c_logs s @ log_entry i (Suc (c_gstep s))\<rparr>)"
proof -
  define s1 where "s1 = s\<lparr>c_wk := (c_wk s)(i := WkRunning v uv ds' False None)\<rparr>"
  define s2 where "s2 = s1\<lparr>c_wk := (c_wk s1)(i := WkRunning v uv ds' True None), c_gstep := Suc (c_gstep s1)\<rparr>"
  define s3 where "s3 = s2\<lparr>c_wk := (c_wk s2)(i := WkRunning v uv ds' True (Some (c_gstep s2)))\<rparr>"
  define s4 where "s4 = s3\<lparr>c_wk := (c_wk s3)(i := WkTraining v uv ds' (Suc (c_gstep s))),
                            c_logs := c_logs s3 @ log_entry i (Suc (c_gstep s))\<rparr>"
  have "cluster_step fl p s s1" unfolding s1_def by (rule cluster_step.wk_begin [OF assms])
  moreover have "cluster_step fl p s1 s2" unfolding s2_def by (rule cluster_step.wk_incr) (simp add: s1_def)
  moreover have "cluster_step fl p s2 s3" unfolding s3_def by (rule cluster_step.wk_fetch) (simp add: s2_def)
  moreover have "cluster_step fl p s3 s4" unfolding s4_def by (rule cluster_step.wk_end) (simp add: s3_def s2_def s1_def)
  ultimately have "reachable fl p s s4" by (meson rtranclp.rtrancl_into_rtrancl rtranclp.rtrancl_refl)
  moreover have "s4 = s\<lparr>c_wk := (c_wk s)(i := WkTraining v uv ds' (Suc (c_gstep s))),
           c_gstep := Suc (c_gstep s), c_logs := c_logs s @ log_entry i (Suc (c_gstep s))\<rparr>"
    by (cases s) (simp add: s4_def s3_def s2_def s1_def)
  ultimately show ?thesis by simp
qed

lemma run_train:
  assumes "c_wk s i = WkTraining v uv ds st" and "ds_ok ds" and "c_gstep s = st" and "st + k \<le> step_ceiling"
  shows "\<exists>t ds'. reachable fl p s t \<and> c_wk t i = WkTraining v uv ds' (st + k) \<and> c_gstep t = st + k \<and>
           ds_ok ds' \<and> (\<forall>j. j \<noteq> i \<longrightarrow> c_wk t j = c_wk s j) \<and> c_ready t = c_ready s"
  using assms
proof (induction k arbitrary: s ds st)
  case 0
  then show ?case by (intro exI [of _ s] exI [of _ ds]) simp
next
  case (Suc k)
  obtain b where b: "get_next_batch ds = Inr (b, advance ds)" and ok: "ds_ok (advance ds)"
    using ds_ok_step [OF Suc.prems(2)] by blast
  define s' where "s' = s\<lparr>c_wk := (c_wk s)(i := WkTraining v uv (advance ds) (Suc (c_gstep s))),
                        c_gstep := Suc (c_gstep s), c_logs := c_logs s @ log_entry i (Suc (c_gstep s))\<rparr>"
  have "reachable fl p s s'" unfolding s'_def by (rule run_step [OF Suc.prems(1) _ b]) (use Suc.prems in simp)
  moreover obtain t ds' where "reachable fl p s' t" "c_wk t i = WkTraining v uv ds' (Suc st + k)"
    "c_gstep t = Suc st + k" "ds_ok ds'" "\<forall>j. j \<noteq> i \<longrightarrow> c_wk t j = c_wk s' j" "c_ready t = c_ready s'"
    using Suc.IH [of s' "advance ds" "Suc st"] ok Suc.prems by (auto simp: s'_def)
  ultimately show ?case by (auto simp: s'_def intro: rtranclp_trans)
qed

text \<open>
  Two workers run one iteration each, both reading \<open>global_step\<close> before either
  increments it: both fetch the same stale value and the counter grows by two.
\<close>

lemma run_stale_pair:
  assumes ij: "i \<noteq> j" and wi: "c_wk s i = WkTraining v uv ds st" and wj: "c_wk s j = WkTraining v' uv' ds' st'"
    and "st < step_ceiling" and "st' < step_ceiling"
    and bi: "get_next_batch ds = Inr (b, dsi)" and bj: "get_next_batch ds' = Inr (b', dsj)"
  shows "reachable fl p s (s\<lparr>c_wk := (c_wk s)(i := WkTraining v uv dsi (c_gstep s), j := WkTraining v' uv' dsj (c_gstep s)),
           c_gstep := c_gstep s + 2, c_logs := c_logs s @ log_entry i (c_gstep s) @ log_entry j (c_gstep s)\<rparr>)"
proof -
  let ?g = "c_gstep s"
  define s1 where "s1 = s\<lparr>c_wk := (c_wk s)(i := WkRunning v uv dsi False None)\<rparr>"
  define s2 where "s2 = s1\<lparr>c_wk := (c_wk s1)(j := WkRunning v' uv' dsj False None)\<rparr>"
  define s3 where "s3 = s2\<lparr>c_wk := (c_wk s2)(i := WkRunning v uv dsi False (Some (c_gstep s2)))\<rparr>"
  define s4 where "s4 = s3\<lparr>c_wk := (c_wk s3)(j := WkRunning v' uv' dsj False (Some (c_gstep s3)))\<rparr>"
  define s5 where "s5 = s4\<lparr>c_wk := (c_wk s4)(i := WkRunning v uv dsi True (Some ?g)), c_gstep := Suc (c_gstep s4)\<rparr>"
  define s6 where "s6 = s5\<lparr>c_wk := (c_wk s5)(j := WkRunning v' uv' dsj True (Some ?g)), c_gstep := Suc (c_gstep s5)\<rparr>"
  define s7 where "s7 = s6\<lparr>c_wk := (c_wk s6)(i := WkTraining v uv dsi ?g), c_logs := c_logs s6 @ log_entry i ?g\<rparr>"
  define s8 where "s8 = s7\<lparr>c_wk := (c_wk s7)(j := WkTraining v' uv' dsj ?g), c_logs := c_logs s7 @ log_entry j ?g\<rparr>"
  have "cluster_step fl p s s1" unfolding s1_def by (rule cluster_step.wk_begin [OF wi _ bi]) fact
  moreover have "cluster_step fl p s1 s2" unfolding s2_def
    by (rule cluster_step.wk_begin [OF _ _ bj]) (use ij wj assms(5) in \<open>simp_all add: s1_def\<close>)
  moreover have "cluster_step fl p s2 s3" unfolding s3_def by (rule cluster_step.wk_fetch) (use ij in \<open>simp add: s2_def s1_def\<close>)
  moreover have "cluster_step fl p s3 s4" unfolding s4_def by (rule cluster_step.wk_fetch) (use ij in \<open>simp add: s3_def s2_def\<close>)
  moreover have "cluster_step fl p s4 s5" unfolding s5_def
    by (rule cluster_step.wk_incr) (use ij in \<open>simp add: s4_def s3_def s2_def s1_def\<close>)
  moreover have "cluster_step fl p s5 s6" unfolding s6_def
    by (rule cluster_step.wk_incr) (use ij in \<open>simp add: s5_def s4_def s3_def s2_def s1_def\<close>)
  moreover have "cluster_step fl p s6 s7" unfolding s7_def
    by (rule cluster_step.wk_end) (use ij in \<open>simp add: s6_def s5_def\<close>)
  moreover have "cluster_step fl p s7 s8" unfolding s8_def
    by (rule cluster_step.wk_end) (use ij in \<open>simp add: s7_def s6_def\<close>)
  ultimately have "reachable fl p s s8" by (meson rtranclp.rtrancl_into_rtrancl rtranclp.rtrancl_refl)
  moreover have "s8 = s\<lparr>c_wk := (c_wk s)(i := WkTraining v uv dsi ?g, j := WkTraining v' uv' dsj ?g),
           c_gstep := ?g + 2, c_logs := c_logs s @ log_entry i ?g @ log_entry j ?g\<rparr>"
    using ij by (simp add: s8_def s7_def s6_def s5_def s4_def s3_def s2_def s1_def fun_upd_twist)
  ultimately show ?thesis by simp
qed

section \<open>The global step\<close>

text \<open>
  \<open>late_steps\<close> bounds the increments a worker can have added since \<open>global_step\<close>
  first reached the ceiling. A worker's reads of \<open>global_step\<close> happen in time order
  and the counter never decreases. So a worker whose last read was below the ceiling
  has added at most the increment of the run that made that read. A run that has read
  a value below the ceiling but not yet incremented has added nothing late. Every other
  worker in its session or finished has added at most two: one in the run in progress
  when the ceiling was reached and one more in the run that first read a value at or
  above it.
\<close>

fun late_steps :: "wk_pc \<Rightarrow> nat" where
  "late_steps (WkTraining v uv ds st) = (if st < step_ceiling then 1 else 2)"
| "late_steps (WkRunning v uv ds inc None) = (if inc then 2 else 1)"
| "late_steps (WkRunning v uv ds inc (Some r)) = (if r < step_ceiling then 0 else 1) + (if inc then 1 else 0)"
| "late_steps WkStopped = 2"
| "late_steps (WkFailed e) = 2"
| "late_steps WkStart = 0"
| "late_steps (WkWaiting ds) = 0"

definition late_total :: "nat \<Rightarrow> (nat \<Rightarrow> wk_pc) \<Rightarrow> nat" where
  "late_total n w = (\<Sum>i<n. late_steps (w i))"

definition gstep_inv :: "flags \<Rightarrow> cluster \<Rightarrow> bool" where
  "gstep_inv fl s \<longleftrightarrow> c_gstep s \<le> step_ceiling + late_total (num_workers fl) (c_wk s) \<and>
     (\<forall>i. num_workers fl \<le> i \<longrightarrow> c_wk s i = WkStart)"

lemma late_steps_le: "late_steps x \<le> 2"
  by (induction x rule: late_steps.induct) simp_all

lemma late_total_le: "late_total n w \<le> 2 * n"
  unfolding late_total_def using sum_bounded_above [of "{..<n}" "\<lambda>i. late_steps (w i)" 2] late_steps_le
  by (simp add: mult.commute)

lemma late_total_upd:
  assumes "i < n"
  shows "late_total n (w(i := y)) + late_steps (w i) = late_total n w + late_steps y"
proof -
  have A: "finite {..<n}" "i \<in> {..<n}" using assms by auto
  have rest: "(\<Sum>j \<in> {..<n} - {i}. late_steps ((w(i := y)) j)) = (\<Sum>j \<in> {..<n} - {i}. late_steps (w j))"
    by (rule sum.cong) auto
  show ?thesis unfolding late_total_def sum.remove [OF A] rest by simp
qed

lemma gstep_inv_init: "gstep_inv fl (init_cluster f r)"
  by (simp add: gstep_inv_def init_cluster_def)

lemma gstep_inv_active: "gstep_inv fl s \<Longrightarrow> c_wk s i \<noteq> WkStart \<Longrightarrow> i < num_workers fl"
  by (rule ccontr) (simp add: gstep_inv_def)

lemma gstep_inv_frame [simp]:
  "gstep_inv fl (s\<lparr>c_fs := f'\<rparr>) = gstep_inv fl s" "gstep_inv fl (s\<lparr>c_ps := ps\<rparr>) = gstep_inv fl s"
  "gstep_inv fl (s\<lparr>c_ready := r\<rparr>) = gstep_inv fl s" "gstep_inv fl (s\<lparr>c_ckpts := ck\<rparr>) = gstep_inv fl s"
  "gstep_inv fl (s\<lparr>c_logs := l\<rparr>) = gstep_inv fl s"
  by (simp_all add: gstep_inv_def)

text \<open>
  A worker's move that keeps the global step keeps the invariant if its \<open>late_steps\<close>
  does not drop, or if the global step is still below the ceiling.
\<close>

lemma gstep_inv_wk:
  assumes inv: "gstep_inv fl s" and i: "i < num_workers fl"
    and le: "late_steps (c_wk s i) \<le> late_steps y \<or> c_gstep s < step_ceiling"
  shows "gstep_inv fl (s\<lparr>c_wk := (c_wk s)(i := y)\<rparr>)"
proof -
  have "late_total (num_workers fl) ((c_wk s)(i := y)) + late_steps (c_wk s i) =
        late_total (num_workers fl) (c_wk s) + late_steps y" by (rule late_total_upd [OF i])
  then show ?thesis using inv i le by (auto simp: gstep_inv_def)
qed

text \<open>The increment inside a run raises the worker's \<open>late_steps\<close> by one.\<close>

lemma gstep_inv_incr:
  assumes inv: "gstep_inv fl s" and i: "i < num_workers fl" and y: "late_steps y = Suc (late_steps (c_wk s i))"
  shows "gstep_inv fl (s\<lparr>c_wk := (c_wk s)(i := y), c_gstep := Suc (c_gstep s)\<rparr>)"
proof -
  have "late_total (num_workers fl) ((c_wk s)(i := y)) + late_steps (c_wk s i) =
        late_total (num_workers fl) (c_wk s) + late_steps y" by (rule late_total_upd [OF i])
  then show ?thesis using inv i y by (auto simp: gstep_inv_def)
qed

lemma gstep_inv_step:
  assumes "cluster_step fl p s t" and "gstep_inv fl s"
  shows "gstep_inv fl t"
  using assms
proof (induction rule: cluster_step.induct)
  case (wk_read i s f' ds)
  then show ?case using gstep_inv_wk [of fl "s\<lparr>c_fs := f'\<rparr>" i "WkWaiting ds"] by simp
next
  case (wk_params_fail i s e)
  then show ?case by (intro gstep_inv_wk) simp_all
next
  case (wk_read_fail i s f' e)
  then show ?case using gstep_inv_wk [of fl "s\<lparr>c_fs := f'\<rparr>" i "WkFailed e"] by (simp add: late_steps_le)
next
  case (wk_pass s i ds v uv ds')
  have "i < num_workers fl" using gstep_inv_active [OF wk_pass.prems, of i] wk_pass.hyps(1) by simp
  with wk_pass show ?case by (intro gstep_inv_wk) simp_all
next
  case (wk_load_fail s i ds e)
  have "i < num_workers fl" using gstep_inv_active [OF wk_load_fail.prems, of i] wk_load_fail.hyps(1) by simp
  with wk_load_fail show ?case by (intro gstep_inv_wk) simp_all
next
  case (wk_begin s i v uv ds st b ds')
  have "i < num_workers fl" using gstep_inv_active [OF wk_begin.prems, of i] wk_begin.hyps(1) by simp
  with wk_begin show ?case by (intro gstep_inv_wk) simp_all
next
  case (wk_incr s i v uv ds r)
  have "i < num_workers fl" using gstep_inv_active [OF wk_incr.prems, of i] wk_incr.hyps(1) by simp
  with wk_incr show ?case by (cases r) (auto intro!: gstep_inv_incr)
next
  case (wk_fetch s i v uv ds inc)
  have "i < num_workers fl" using gstep_inv_active [OF wk_fetch.prems, of i] wk_fetch.hyps(1) by simp
  with wk_fetch show ?case by (intro gstep_inv_wk) auto
next
  case (wk_end s i v uv ds st')
  have "i < num_workers fl" using gstep_inv_active [OF wk_end.prems, of i] wk_end.hyps(1) by simp
  then have "gstep_inv fl (s\<lparr>c_wk := (c_wk s)(i := WkTraining v uv ds st')\<rparr>)"
    using wk_end by (intro gstep_inv_wk) simp_all
  then show ?case by simp
next
  case (wk_train_fail s i v uv ds st e)
  have "i < num_workers fl" using gstep_inv_active [OF wk_train_fail.prems, of i] wk_train_fail.hyps(1) by simp
  with wk_train_fail show ?case by (intro gstep_inv_wk) (simp_all add: late_steps_le)
next
  case (wk_done s i v uv ds st)
  have "i < num_workers fl" using gstep_inv_active [OF wk_done.prems, of i] wk_done.hyps(1) by simp
  with wk_done show ?case by (intro gstep_inv_wk) (simp_all add: late_steps_le)
next
  case (wk_stop s i v uv ds st)
  have "i < num_workers fl" using gstep_inv_active [OF wk_stop.prems, of i] wk_stop.hyps(1) by simp
  with wk_stop show ?case by (intro gstep_inv_wk) (simp_all add: late_steps_le)
qed simp_all

lemma gstep_inv_reachable:
  "reachable fl p (init_cluster f r) s \<Longrightarrow> gstep_inv fl s"
  by (induction rule: rtranclp_induct) (auto intro: gstep_inv_init gstep_inv_step)

text \<open>
  C21. The global step stays within two increments per worker of the ceiling: in every
  interleaving, \<open>global_step \<le> 1000000 + 2 * len(worker_hosts)\<close>. A worker tests the
  ceiling against the step it fetched last, and the fetch of line 148 may read the
  counter before other workers' increments (and its own). So a worker can complete the
  run in progress when the counter reaches the ceiling and then run one more step
  before it reads a value at the ceiling.
\<close>

theorem gstep_bound:
  assumes "reachable fl p (init_cluster f r) s"
  shows "c_gstep s \<le> step_ceiling + 2 * num_workers fl"
  using gstep_inv_reachable [OF assms] late_total_le [of "num_workers fl" "c_wk s"] by (simp add: gstep_inv_def)

section \<open>A concrete run\<close>

text \<open>
  Two workers and one parameter server on the three-line sample corpus; the parameter
  file exists, the experiment directory is fresh.
\<close>

definition sample_flags :: flags where
  "sample_flags = \<lparr>f_expdir = ''exp'', f_params = ''params.json'', f_ps_hosts = ''ps0'',
     f_worker_hosts = ''w0'' @ COMMA # ''w1'', f_ps_corpus = sample_corpus 3, f_wk_corpus = sample_corpus 3,
     f_limit = default_limit, f_seed = 0\<rparr>"

definition sample_params :: params where "sample_params = \<lparr>p_max_len = 35, p_batch_size = 1\<rparr>"

definition sample_fs :: fs where "sample_fs = Map.empty(''params.json'' \<mapsto> ''{}'')"

definition sample_shard :: dataset where
  "sample_shard = (new_dataset 36 1 True 0)\<lparr>users := [''u''], texts := [tokenize (''w'' @ [NL])], phase := Raw\<rparr>"

lemma sample_flags_fields [simp]:
  "f_expdir sample_flags = ''exp''" "f_params sample_flags = ''params.json''"
  "f_ps_corpus sample_flags = sample_corpus 3" "f_wk_corpus sample_flags = sample_corpus 3"
  "f_limit sample_flags = default_limit" "f_seed sample_flags = 0"
  by (simp_all add: sample_flags_def)

lemma sample_num_workers [simp]: "num_workers sample_flags = 2"
  by (simp add: num_workers_def hosts_def sample_flags_def split_sep_def COMMA_def)

lemma sample_shard_read:
  "w < 2 \<Longrightarrow> shard_read_data Train default_limit (Some (w, 2)) (sample_corpus 3) = Inr ([''u''], [tokenize (''w'' @ [NL])])"
  by (cases w) (simp_all add: shard_read_data_records valid_worker_def sample_lines_ok py_lines_sample_corpus
      numeral_3_eq_3 shard_records_Cons default_limit_def in_partition_def shard_ok_def record_of_def line_ok_def
      split_sep_def TAB_def NL_def shard_records_def)

lemma sample_worker_read: "w < 2 \<Longrightarrow> worker_read sample_flags sample_params w = Inr sample_shard"
  by (simp add: worker_read_def sample_shard_read sample_params_def add_data_source_def
      sample_shard_def new_dataset_def)

lemma sample_ps0_build:
  "ps0_build sample_flags sample_params = Inr (build_vocabs [''u'', ''u''] [tokenize (''w'' @ [NL]), tokenize (''w'' @ [NL])])"
  by (simp add: ps0_build_def ps0_read sample_read_Train add_data_source_def)

lemma sample_open_params:
  "f ''params.json'' = Some ''{}'' \<Longrightarrow> open_params sample_flags f = Inr (f(''exp/params.json'' \<mapsto> ''{}''))"
  by (simp add: open_params_def path_join_def)

lemma sample_shard_ok: "ds_ok (prepare sample_shard v uv)"
  by (rule prepare_ds_ok) (simp_all add: sample_shard_def new_dataset_def)

lemma sample_run:
  obtains s v uv where "reachable sample_flags sample_params (init_cluster sample_fs False) s"
    "c_wk s 0 = WkTraining v uv (prepare sample_shard v uv) 0"
    "c_wk s 1 = WkTraining v uv (prepare sample_shard v uv) 0" "c_gstep s = 0" "c_ready s"
    "c_ckpts s = []" "c_logs s = []"
proof -
  let ?fl = sample_flags and ?p = sample_params
  obtain v uv where b: "ps0_build ?fl ?p = Inr (v, uv)" using sample_ps0_build by (metis surj_pair)
  let ?d = "f_expdir ?fl"
  let ?f1 = "sample_fs(''exp/params.json'' \<mapsto> ''{}'')"
  let ?s4 = "(init_cluster sample_fs False)\<lparr>c_fs := ?f1(word_vocab_path ?d \<mapsto> vocab_save v, username_vocab_path ?d \<mapsto> vocab_save uv),
                                            c_ps := (\<lambda>_. PsStart)(0 := PsServing), c_ready := True\<rparr>"
  have r4: "reachable ?fl ?p (init_cluster sample_fs False) ?s4"
    by (rule run_ps0_ready [OF _ b]) (simp add: sample_open_params sample_fs_def)
  let ?f2 = "(c_fs ?s4)(''exp/params.json'' \<mapsto> ''{}'')"
  have o4: "open_params ?fl (c_fs ?s4) = Inr ?f2"
    by (rule sample_open_params) (simp add: sample_fs_def word_vocab_path_def username_vocab_path_def path_join_def)
  have vf2: "vocab_files ?fl v uv ?f2"
    by (simp add: vocab_files_def word_vocab_path_def username_vocab_path_def path_join_def)
  have l2: "load_vocabs ?d ?f2 = Inr (v, uv)" by (rule ps0_build_load [OF b vf2])
  let ?s5 = "?s4\<lparr>c_fs := ?f2, c_wk := (c_wk ?s4)(0 := WkTraining v uv (prepare sample_shard v uv) 0)\<rparr>"
  have r5: "reachable ?fl ?p ?s4 ?s5"
    by (rule run_worker_pass [OF _ _ _ o4 _ l2]) (simp_all add: sample_worker_read init_cluster_def)
  let ?f3 = "(c_fs ?s5)(''exp/params.json'' \<mapsto> ''{}'')"
  have o5: "open_params ?fl (c_fs ?s5) = Inr ?f3"
    by (rule sample_open_params) (simp add: sample_fs_def word_vocab_path_def username_vocab_path_def path_join_def)
  have vf3: "vocab_files ?fl v uv ?f3"
    by (simp add: vocab_files_def word_vocab_path_def username_vocab_path_def path_join_def)
  have l3: "load_vocabs ?d ?f3 = Inr (v, uv)" by (rule ps0_build_load [OF b vf3])
  let ?s6 = "?s5\<lparr>c_fs := ?f3, c_wk := (c_wk ?s5)(1 := WkTraining v uv (prepare sample_shard v uv) 0)\<rparr>"
  have r6: "reachable ?fl ?p ?s5 ?s6"
    by (rule run_worker_pass [OF _ _ _ o5 _ l3]) (simp_all add: sample_worker_read init_cluster_def)
  have "reachable ?fl ?p (init_cluster sample_fs False) ?s6" using r4 r5 r6 by (meson rtranclp_trans)
  moreover have "c_wk ?s6 0 = WkTraining v uv (prepare sample_shard v uv) 0"
    "c_wk ?s6 1 = WkTraining v uv (prepare sample_shard v uv) 0" "c_gstep ?s6 = 0" "c_ready ?s6"
    "c_ckpts ?s6 = []" "c_logs ?s6 = []"
    by (simp_all add: init_cluster_def)
  ultimately show ?thesis using that by blast
qed

theorem worker_after_ready_witness:
  "\<exists>s v uv ds st. reachable sample_flags sample_params (init_cluster sample_fs False) s \<and>
     (c_wk s 1 = WkTraining v uv ds st \<or> c_wk s 1 = WkStopped) \<and>
     c_ready s \<and> c_ps s 0 = PsServing \<and>
     (\<exists>v0 uv0. ps0_build sample_flags sample_params = Inr (v0, uv0) \<and> vocab_files sample_flags v0 uv0 (c_fs s))"
proof -
  obtain s v uv where r: "reachable sample_flags sample_params (init_cluster sample_fs False) s"
    and w: "c_wk s 1 = WkTraining v uv (prepare sample_shard v uv) 0" using sample_run by metis
  show ?thesis using r w worker_after_ready [OF r, of 1 v uv "prepare sample_shard v uv" 0] by blast
qed

theorem worker_vocabs_agree_witness:
  "\<exists>s v uv ds st. reachable sample_flags sample_params (init_cluster sample_fs False) s \<and>
     c_wk s 0 = WkTraining v uv ds st \<and>
     (\<exists>us ts. read_data Train (f_limit sample_flags) (f_ps_corpus sample_flags) = Inr (us, ts) \<and> (v, uv) = build_vocabs us ts)"
proof -
  obtain s v uv where r: "reachable sample_flags sample_params (init_cluster sample_fs False) s"
    and w: "c_wk s 0 = WkTraining v uv (prepare sample_shard v uv) 0" using sample_run by metis
  show ?thesis using r w worker_vocabs_agree [OF r w] by blast
qed

text \<open>Two workers, each with a batch at hand, both below the ceiling: the stale pair of iterations.\<close>

lemma sample_stale_round:
  assumes r: "reachable sample_flags sample_params (init_cluster sample_fs False) s"
    and w0: "c_wk s 0 = WkTraining v uv d0 st0" and w1: "c_wk s 1 = WkTraining v uv d1 st1"
    and "st0 < step_ceiling" "st1 < step_ceiling" and ok: "ds_ok d0" "ds_ok d1"
  obtains t where "reachable sample_flags sample_params (init_cluster sample_fs False) t"
    "c_wk t 0 = WkTraining v uv (advance d0) (c_gstep s)" "c_wk t 1 = WkTraining v uv (advance d1) (c_gstep s)"
    "c_gstep t = c_gstep s + 2" "ds_ok (advance d0)" "ds_ok (advance d1)"
proof -
  obtain b0 where b0: "get_next_batch d0 = Inr (b0, advance d0)" "ds_ok (advance d0)" using ds_ok_step [OF ok(1)] by blast
  obtain b1 where b1: "get_next_batch d1 = Inr (b1, advance d1)" "ds_ok (advance d1)" using ds_ok_step [OF ok(2)] by blast
  have "reachable sample_flags sample_params s
          (s\<lparr>c_wk := (c_wk s)(0 := WkTraining v uv (advance d0) (c_gstep s), 1 := WkTraining v uv (advance d1) (c_gstep s)),
             c_gstep := c_gstep s + 2, c_logs := c_logs s @ log_entry 0 (c_gstep s) @ log_entry 1 (c_gstep s)\<rparr>)"
    by (rule run_stale_pair [OF _ w0 w1 assms(4,5) b0(1) b1(1)]) simp
  from rtranclp_trans [OF r this] show ?thesis using that b0(2) b1(2) by simp
qed

lemma sample_overshoot:
  obtains s where "reachable sample_flags sample_params (init_cluster sample_fs False) s"
    "c_gstep s = step_ceiling + 3"
proof -
  obtain s v uv where r: "reachable sample_flags sample_params (init_cluster sample_fs False) s"
    and w0: "c_wk s 0 = WkTraining v uv (prepare sample_shard v uv) 0"
    and w1: "c_wk s 1 = WkTraining v uv (prepare sample_shard v uv) 0" and g: "c_gstep s = 0"
    using sample_run by metis
  obtain t d0 where rt: "reachable sample_flags sample_params s t"
    and t0: "c_wk t 0 = WkTraining v uv d0 (0 + (step_ceiling - 1))" and gt: "c_gstep t = 0 + (step_ceiling - 1)"
    and ok0: "ds_ok d0" and ft: "\<forall>j. j \<noteq> 0 \<longrightarrow> c_wk t j = c_wk s j"
    using run_train [OF w0 sample_shard_ok g, of "step_ceiling - 1" sample_flags sample_params] by auto
  have t1: "c_wk t 1 = WkTraining v uv (prepare sample_shard v uv) 0" using ft w1 by simp
  have c: "0 < step_ceiling" "step_ceiling - 1 < step_ceiling" by (simp_all add: step_ceiling_def)
  obtain u where ru: "reachable sample_flags sample_params (init_cluster sample_fs False) u"
    and u0: "c_wk u 0 = WkTraining v uv (advance d0) (step_ceiling - 1)"
    and u1: "c_wk u 1 = WkTraining v uv (advance (prepare sample_shard v uv)) (step_ceiling - 1)"
    and gu: "c_gstep u = step_ceiling + 1" and oku: "ds_ok (advance d0)" "ds_ok (advance (prepare sample_shard v uv))"
    using sample_stale_round [OF rtranclp_trans [OF r rt] t0 [simplified] t1 _ c(1) ok0 sample_shard_ok] c gt by auto
  obtain w where "reachable sample_flags sample_params (init_cluster sample_fs False) w" "c_gstep w = c_gstep u + 2"
    using sample_stale_round [OF ru u0 u1 c(2) c(2) oku] by blast
  then show ?thesis using that gu by simp
qed

text \<open>
  C22. The ceiling is overshot by more than one step per worker. With two workers there
  is a run in which worker 0 drives \<open>global_step\<close> to 999999. Both workers then begin a
  step and read 999999 before either increments, so both fetch 999999 while the counter
  goes to 1000001. Both are still below the ceiling, so both run once more, leaving
  \<open>global_step = 1000003\<close>, above \<open>1000000 + len(worker_hosts)\<close>.
\<close>

theorem gstep_overshoot:
  "\<exists>s. reachable sample_flags sample_params (init_cluster sample_fs False) s \<and> c_gstep s = step_ceiling + 3 \<and>
     step_ceiling + num_workers sample_flags < c_gstep s"
proof -
  obtain s where "reachable sample_flags sample_params (init_cluster sample_fs False) s" "c_gstep s = step_ceiling + 3"
    using sample_overshoot by metis
  then show ?thesis by auto
qed

theorem gstep_bound_witness:
  "\<exists>s. reachable sample_flags sample_params (init_cluster sample_fs False) s \<and>
     c_gstep s = step_ceiling + 3 \<and> c_gstep s \<le> step_ceiling + 2 * num_workers sample_flags"
proof -
  obtain s where r: "reachable sample_flags sample_params (init_cluster sample_fs False) s"
    and g: "c_gstep s = step_ceiling + 3" using sample_overshoot by metis
  show ?thesis using r g gstep_bound [OF r] by blast
qed

section \<open>A stale \<open>READY\<close> file\<close>

text \<open>
  An experiment directory left by an earlier run: the parameter copy, vocabulary files
  of another corpus and \<open>READY\<close>.
\<close>

definition stale_vocab :: vocab where "stale_vocab = make_from_data [[''x'']] 1"

definition stale_fs :: fs where
  "stale_fs = save_vocabs ''exp'' stale_vocab stale_vocab (sample_fs(''exp/params.json'' \<mapsto> ''{}''))"

lemma run_ps0_ready_fail:
  assumes "c_ps s 0 = PsStart" and "c_ready s" and "open_params fl (c_fs s) = Inr f1"
    and "ps0_build fl p = Inr (v, uv)"
  shows "\<exists>t. reachable fl p s t \<and> c_ps t 0 = PsFailed OSError \<and> c_wk t = c_wk s"
proof -
  define s1 where "s1 = s\<lparr>c_fs := f1, c_ps := (c_ps s)(0 := PsBuilt v uv)\<rparr>"
  define s2 where "s2 = s1\<lparr>c_fs := (c_fs s1)(word_vocab_path (f_expdir fl) \<mapsto> vocab_save v),
                              c_ps := (c_ps s1)(0 := PsSavedWord v uv)\<rparr>"
  define s3 where "s3 = s2\<lparr>c_fs := (c_fs s2)(username_vocab_path (f_expdir fl) \<mapsto> vocab_save uv),
                              c_ps := (c_ps s2)(0 := PsSavedUser)\<rparr>"
  define s4 where "s4 = s3\<lparr>c_ps := (c_ps s3)(0 := PsFailed OSError)\<rparr>"
  have "cluster_step fl p s s1" unfolding s1_def by (rule cluster_step.ps0_build_ok) (simp_all add: assms)
  moreover have "cluster_step fl p s1 s2" unfolding s2_def by (rule cluster_step.ps0_save_word) (simp add: s1_def)
  moreover have "cluster_step fl p s2 s3" unfolding s3_def by (rule cluster_step.ps0_save_user) (simp add: s2_def)
  moreover have "cluster_step fl p s3 s4" unfolding s4_def
    by (rule cluster_step.ps0_ready_fail) (simp_all add: s3_def s2_def s1_def assms)
  ultimately have "reachable fl p s s4" by (meson rtranclp.rtrancl_into_rtrancl rtranclp.rtrancl_refl)
  then show ?thesis by (intro exI [of _ s4]) (simp add: s4_def s3_def s2_def s1_def)
qed

lemma stale_open_params: "open_params sample_flags stale_fs = Inr stale_fs"
proof -
  have "stale_fs(''exp/params.json'' \<mapsto> ''{}'') = stale_fs"
    by (rule fun_upd_idem) (simp add: stale_fs_def save_vocabs_def word_vocab_path_def username_vocab_path_def path_join_def)
  then show ?thesis
    by (subst sample_open_params) (simp_all add: stale_fs_def save_vocabs_def word_vocab_path_def
        username_vocab_path_def path_join_def sample_fs_def)
qed

lemma stale_vocab_loaded: "load_vocabs ''exp'' stale_fs = Inr (stale_vocab, stale_vocab)"
proof -
  have "list_all (\<lambda>w. NL \<notin> set w) (idx_to_word stale_vocab)"
    unfolding stale_vocab_def by (rule make_from_data_no_NL) (simp add: NL_def)
  then show ?thesis unfolding stale_fs_def by (intro load_save_vocabs) (simp_all add: stale_vocab_def make_from_data_wf)
qed

lemma sample_tokenize: "tokenize (''w'' @ [NL]) = [BOS, ''w'', EOS]"
  by (simp add: tokenize_def py_lower_def lower_char_def split_ws_def is_py_space_def NL_def)

lemma stale_vocab_not_built: "ps0_build sample_flags sample_params \<noteq> Inr (stale_vocab, uv)"
proof -
  have "''x'' \<in> set (idx_to_word stale_vocab)"
    by (simp add: stale_vocab_def set_idx_to_word_make set_kept_tokens UNK_def)
  moreover have "''x'' \<notin> set (idx_to_word (fst (build_vocabs [''u'', ''u''] [tokenize (''w'' @ [NL]), tokenize (''w'' @ [NL])])))"
    unfolding sample_tokenize by (simp add: build_vocabs_def set_idx_to_word_make set_kept_tokens UNK_def BOS_def EOS_def)
  ultimately show ?thesis by (auto simp: sample_ps0_build)
qed

text \<open>
  C23. The barrier relies on a fresh experiment directory. If \<open>READY\<close> and vocabulary
  files survive from an earlier run, a worker passes the poll at once, loads the old
  vocabularies and trains with them although parameter server 0 builds different ones;
  parameter server 0 itself then fails with \<open>OSError\<close> when it creates \<open>READY\<close>
  (\<open>os.mkdir\<close> raises \<open>OSError\<close> on an existing directory, line 63).
\<close>

theorem stale_ready_vocabs:
  "\<exists>s v uv ds. reachable sample_flags sample_params (init_cluster stale_fs True) s \<and>
     c_wk s 0 = WkTraining v uv ds 0 \<and> ps0_build sample_flags sample_params \<noteq> Inr (v, uv) \<and>
     c_ps s 0 = PsFailed OSError"
proof -
  let ?ds = "prepare sample_shard stale_vocab stale_vocab"
  let ?s1 = "(init_cluster stale_fs True)\<lparr>c_fs := stale_fs, c_wk := (\<lambda>_. WkStart)(0 := WkTraining stale_vocab stale_vocab ?ds 0)\<rparr>"
  have r1: "reachable sample_flags sample_params (init_cluster stale_fs True) ?s1"
  proof -
    have "reachable sample_flags sample_params (init_cluster stale_fs True)
            ((init_cluster stale_fs True)\<lparr>c_fs := stale_fs,
               c_wk := (c_wk (init_cluster stale_fs True))(0 := WkTraining stale_vocab stale_vocab ?ds 0)\<rparr>)"
      by (rule run_worker_pass) (simp_all add: init_cluster_def stale_open_params sample_worker_read stale_vocab_loaded)
    then show ?thesis by (simp add: init_cluster_def)
  qed
  obtain bv buv where b: "ps0_build sample_flags sample_params = Inr (bv, buv)"
    using sample_ps0_build by (metis surj_pair)
  obtain t where r2: "reachable sample_flags sample_params ?s1 t" and t: "c_ps t 0 = PsFailed OSError" "c_wk t = c_wk ?s1"
    using run_ps0_ready_fail [OF _ _ _ b, of ?s1 stale_fs] stale_open_params by (auto simp: init_cluster_def)
  show ?thesis using rtranclp_trans [OF r1 r2] t stale_vocab_not_built by fastforce
qed

section \<open>The workers' shards\<close>

lemma worker_read_records:
  assumes "read_data Train (f_limit fl) (f_wk_corpus fl) = Inr r" and "i < num_workers fl"
  shows "\<exists>ds. worker_read fl p i = Inr ds \<and>
           zip (users ds) (texts ds) = records_of (shard_read_data Train (f_limit fl) (Some (i, num_workers fl)) (f_wk_corpus fl))"
proof -
  have v: "valid_worker (Some (i, num_workers fl))" using num_workers_pos by (simp add: valid_worker_def)
  have ok: "list_all line_ok (take (f_limit fl + 2) (py_lines (f_wk_corpus fl)))"
    using assms(1) by (simp add: read_data_records split: if_splits)
  show ?thesis using ok
    by (simp add: worker_read_def shard_read_data_records [OF v] add_data_source_def new_dataset_def
        records_of_def zip_map_fst_snd)
qed

text \<open>
  C24. When the workers read the file parameter server 0 read, their datasets together
  hold exactly the train partition from which the vocabularies were built: every worker
  of \<open>worker_hosts\<close> (there is always at least one, as \<open>split\<close> never returns an empty
  list) fills its dataset without an exception, and the records of all workers' datasets
  form the multiset of the unsharded train records, none lost and none duplicated.
\<close>

theorem workers_cover_partition:
  assumes "f_wk_corpus fl = f_ps_corpus fl" and "read_data Train (f_limit fl) (f_ps_corpus fl) = Inr (us, ts)"
  shows "\<exists>dss. length dss = num_workers fl \<and> (\<forall>i < num_workers fl. worker_read fl p i = Inr (dss ! i)) \<and>
           (\<Sum>ds \<leftarrow> dss. mset (zip (users ds) (texts ds))) = mset (zip us ts)"
proof -
  let ?n = "num_workers fl"
  let ?sh = "\<lambda>i. records_of (shard_read_data Train (f_limit fl) (Some (i, ?n)) (f_wk_corpus fl))"
  have rd: "read_data Train (f_limit fl) (f_wk_corpus fl) = Inr (us, ts)" using assms by simp
  have "\<forall>i. \<exists>ds. i < ?n \<longrightarrow> worker_read fl p i = Inr ds \<and> zip (users ds) (texts ds) = ?sh i"
    using worker_read_records [OF rd] by blast
  then obtain D where D: "\<And>i. i < ?n \<Longrightarrow> worker_read fl p i = Inr (D i) \<and> zip (users (D i)) (texts (D i)) = ?sh i"
    by metis
  have "(\<Sum>ds \<leftarrow> map D [0..<?n]. mset (zip (users ds) (texts ds))) = (\<Sum>i<?n. mset (zip (users (D i)) (texts (D i))))"
    by (simp add: sum_set_upt_conv_sum_list_nat [symmetric] atLeast0LessThan comp_def)
  also have "\<dots> = (\<Sum>i<?n. mset (?sh i))" using D by (intro sum.cong) simp_all
  also have "\<dots> = mset (records_of (read_data Train (f_limit fl) (f_wk_corpus fl)))"
    by (rule shard_read_data_sum [OF num_workers_pos])
  also have "\<dots> = mset (zip us ts)" by (simp add: rd records_of_def)
  finally show ?thesis using D by (intro exI [of _ "map D [0..<?n]"]) simp
qed

theorem workers_cover_partition_witness:
  "f_wk_corpus sample_flags = f_ps_corpus sample_flags \<and>
   read_data Train (f_limit sample_flags) (f_ps_corpus sample_flags) =
     Inr ([''u'', ''u''], [tokenize (''w'' @ [NL]), tokenize (''w'' @ [NL])]) \<and>
   (\<exists>dss. length dss = num_workers sample_flags \<and>
      (\<forall>i < num_workers sample_flags. worker_read sample_flags sample_params i = Inr (dss ! i)) \<and>
      (\<Sum>ds \<leftarrow> dss. mset (zip (users ds) (texts ds))) =
        mset (zip [''u'', ''u''] [tokenize (''w'' @ [NL]), tokenize (''w'' @ [NL])]))"
  using workers_cover_partition [of sample_flags, OF _ sample_read_Train [folded sample_flags_fields(5,3)]]
  by (simp add: sample_read_Train)

section \<open>Log records and checkpoints\<close>

text \<open>
  Besides the records, a value a running worker has fetched is never above the counter,
  which only grows; the log line written when its run returns names that value.
\<close>

definition log_inv :: "flags \<Rightarrow> cluster \<Rightarrow> bool" where
  "log_inv fl s \<longleftrightarrow> sorted (c_ckpts s) \<and> (\<forall>x \<in> set (c_ckpts s). x \<le> c_gstep s) \<and>
     (\<forall>(i, st) \<in> set (c_logs s). i < num_workers fl \<and> st mod 10 = 0 \<and> st \<le> c_gstep s) \<and>
     (\<forall>i v uv ds inc r. c_wk s i = WkRunning v uv ds inc (Some r) \<longrightarrow> r \<le> c_gstep s)"

lemma log_inv_init: "log_inv fl (init_cluster f r)"
  by (simp add: log_inv_def init_cluster_def)

lemma log_inv_frame [simp]:
  "log_inv fl (s\<lparr>c_fs := f'\<rparr>) = log_inv fl s" "log_inv fl (s\<lparr>c_ps := ps\<rparr>) = log_inv fl s"
  "log_inv fl (s\<lparr>c_ready := r\<rparr>) = log_inv fl s"
  by (simp_all add: log_inv_def)

lemma log_inv_wk:
  assumes "log_inv fl s" and "\<And>v uv ds inc r. y = WkRunning v uv ds inc (Some r) \<Longrightarrow> r \<le> c_gstep s"
  shows "log_inv fl (s\<lparr>c_wk := (c_wk s)(i := y)\<rparr>)"
  using assms by (auto simp: log_inv_def)

lemma log_inv_incr:
  assumes "log_inv fl s" and "c_wk s i = WkRunning v uv ds False r"
  shows "log_inv fl (s\<lparr>c_wk := (c_wk s)(i := WkRunning v uv ds True r), c_gstep := Suc (c_gstep s)\<rparr>)"
  using assms by (fastforce simp: log_inv_def le_Suc_eq)

lemma log_inv_end:
  assumes "log_inv fl s" and "i < num_workers fl" and "c_wk s i = WkRunning v uv ds True (Some st')"
  shows "log_inv fl (s\<lparr>c_wk := (c_wk s)(i := WkTraining v uv ds st'), c_logs := c_logs s @ log_entry i st'\<rparr>)"
proof -
  have "st' \<le> c_gstep s" using assms(1,3) by (auto simp: log_inv_def)
  then show ?thesis using assms(1,2) by (fastforce simp: log_inv_def log_entry_def)
qed

lemma log_inv_ckpt:
  assumes "log_inv fl s"
  shows "log_inv fl (s\<lparr>c_ckpts := c_ckpts s @ [c_gstep s]\<rparr>)"
  using assms by (auto simp: log_inv_def sorted_append)

lemma log_inv_step:
  assumes "cluster_step fl p s t" and "gstep_inv fl s" and "log_inv fl s"
  shows "log_inv fl t"
  using assms
proof (induction rule: cluster_step.induct)
  case (wk_incr s i v uv ds r)
  show ?case by (rule log_inv_incr [OF wk_incr.prems(2) wk_incr.hyps])
next
  case (wk_fetch s i v uv ds inc)
  then show ?case by (intro log_inv_wk) simp_all
next
  case (wk_end s i v uv ds st')
  have "i < num_workers fl" using gstep_inv_active [OF wk_end.prems(1)] wk_end.hyps by simp
  then show ?case by (rule log_inv_end [OF wk_end.prems(2) _ wk_end.hyps])
next
  case (chief_ckpt s)
  show ?case by (rule log_inv_ckpt [OF chief_ckpt.prems(2)])
next
  case (wk_read i s f' ds)
  then show ?case using log_inv_wk [of fl "s\<lparr>c_fs := f'\<rparr>" "WkWaiting ds" i] by simp
next
  case (wk_read_fail i s f' e)
  then show ?case using log_inv_wk [of fl "s\<lparr>c_fs := f'\<rparr>" "WkFailed e" i] by simp
qed (auto intro: log_inv_wk)

lemma log_inv_reachable:
  assumes "reachable fl p (init_cluster f r) s"
  shows "log_inv fl s"
  using assms
proof (induction rule: rtranclp_induct)
  case base
  show ?case by (rule log_inv_init)
next
  case (step t u)
  then show ?case using gstep_inv_reachable [OF step.hyps(1)] by (blast intro: log_inv_step)
qed

text \<open>
  C25. The progress records are consistent with the global step in every interleaving:
  the chief's checkpoints are taken at nondecreasing steps none beyond the current
  \<open>global_step\<close>, and every log record \<open>(worker, step)\<close> comes from a worker of
  \<open>worker_hosts\<close> and names a multiple of 10 no larger than the current
  \<open>global_step\<close> (lines 117--123 and 151--154).
\<close>

theorem progress_records:
  assumes "reachable fl p (init_cluster f r) s"
  shows "sorted (c_ckpts s) \<and> (\<forall>x \<in> set (c_ckpts s). x \<le> c_gstep s) \<and>
         (\<forall>(i, st) \<in> set (c_logs s). i < num_workers fl \<and> st mod 10 = 0 \<and> st \<le> c_gstep s)"
  using log_inv_reachable [OF assms] by (simp add: log_inv_def)
theorem progress_records_witness:
  "\<exists>s. reachable sample_flags sample_params (init_cluster sample_fs False) s \<and>
     c_ckpts s = [0] \<and> c_logs s = [(0, 0)] \<and> c_gstep s = 1 \<and>
     sorted (c_ckpts s) \<and> (\<forall>x \<in> set (c_ckpts s). x \<le> c_gstep s) \<and>
     (\<forall>(i, st) \<in> set (c_logs s). i < num_workers sample_flags \<and> st mod 10 = 0 \<and> st \<le> c_gstep s)"
proof -
  obtain s v uv where r: "reachable sample_flags sample_params (init_cluster sample_fs False) s"
    and w: "c_wk s 0 = WkTraining v uv (prepare sample_shard v uv) 0" and g: "c_gstep s = 0"
    and ck: "c_ckpts s = []" and lg: "c_logs s = []"
    using sample_run by metis
  let ?d = "advance (prepare sample_shard v uv)"
  obtain b where b: "get_next_batch (prepare sample_shard v uv) = Inr (b, ?d)"
    using ds_ok_step [OF sample_shard_ok] by blast
  define s1 where "s1 = s\<lparr>c_ckpts := c_ckpts s @ [c_gstep s]\<rparr>"
  define s2 where "s2 = s1\<lparr>c_wk := (c_wk s1)(0 := WkRunning v uv ?d False None)\<rparr>"
  define s3 where "s3 = s2\<lparr>c_wk := (c_wk s2)(0 := WkRunning v uv ?d False (Some (c_gstep s2)))\<rparr>"
  define s4 where "s4 = s3\<lparr>c_wk := (c_wk s3)(0 := WkRunning v uv ?d True (Some 0)), c_gstep := Suc (c_gstep s3)\<rparr>"
  define s5 where "s5 = s4\<lparr>c_wk := (c_wk s4)(0 := WkTraining v uv ?d 0), c_logs := c_logs s4 @ log_entry 0 0\<rparr>"
  have "cluster_step sample_flags sample_params s s1" unfolding s1_def by (rule cluster_step.chief_ckpt) (simp add: w)
  moreover have "cluster_step sample_flags sample_params s1 s2" unfolding s2_def
    by (rule cluster_step.wk_begin [OF _ _ b]) (simp add: s1_def w, simp add: step_ceiling_def)
  moreover have "cluster_step sample_flags sample_params s2 s3" unfolding s3_def
    by (rule cluster_step.wk_fetch) (simp add: s2_def)
  moreover have "cluster_step sample_flags sample_params s3 s4" unfolding s4_def
    by (rule cluster_step.wk_incr) (simp add: s3_def s2_def s1_def g)
  moreover have "cluster_step sample_flags sample_params s4 s5" unfolding s5_def
    by (rule cluster_step.wk_end) (simp add: s4_def)
  ultimately have r5: "reachable sample_flags sample_params (init_cluster sample_fs False) s5"
    using r by (meson rtranclp.rtrancl_into_rtrancl)
  have "c_ckpts s5 = [0]" "c_logs s5 = [(0, 0)]" "c_gstep s5 = 1"
    by (simp_all add: s5_def s4_def s3_def s2_def s1_def ck lg g log_entry_def)
  then show ?thesis using r5 progress_records [OF r5] by auto
qed

section \<open>Every worker gets to train\<close>

lemma open_params_Inr:
  "f (f_params fl) \<noteq> None \<Longrightarrow> \<exists>f'. open_params fl f = Inr f' \<and> f' (f_params fl) \<noteq> None"
  by (auto simp: open_params_def)

lemma run_workers_pass:
  assumes "ps0_build fl p = Inr (v, uv)" and "\<And>i. i < num_workers fl \<Longrightarrow> worker_read fl p i = Inr (D i)"
    and "c_ready s" and "vocab_files fl v uv (c_fs s)" and "c_fs s (f_params fl) \<noteq> None"
    and "\<And>i. k \<le> i \<Longrightarrow> c_wk s i = WkStart" and "k \<le> num_workers fl"
  shows "\<exists>t. reachable fl p s t \<and> c_ps t = c_ps s \<and>
           (\<forall>i < num_workers fl. k \<le> i \<longrightarrow> c_wk t i = WkTraining v uv (prepare (D i) v uv) 0) \<and>
           (\<forall>i. i < k \<longrightarrow> c_wk t i = c_wk s i)"
  using assms(3-7)
proof (induction "num_workers fl - k" arbitrary: s k)
  case 0
  then show ?case by (intro exI [of _ s]) simp
next
  case (Suc m)
  then have k: "k < num_workers fl" by simp
  obtain f' where o: "open_params fl (c_fs s) = Inr f'" and f': "f' (f_params fl) \<noteq> None"
    using open_params_Inr [where f = "c_fs s" and fl = fl, OF Suc.prems(3)] by blast
  have vf: "vocab_files fl v uv f'" using open_params_vocab_files [OF o] Suc.prems(2) by simp
  define s1 where "s1 = s\<lparr>c_fs := f', c_wk := (c_wk s)(k := WkTraining v uv (prepare (D k) v uv) 0)\<rparr>"
  have r1: "reachable fl p s s1" unfolding s1_def
    by (rule run_worker_pass [OF k Suc.prems(4) [OF order_refl] Suc.prems(1) o assms(2) [OF k]
          ps0_build_load [OF assms(1) vf]])
  have "\<exists>t. reachable fl p s1 t \<and> c_ps t = c_ps s1 \<and>
          (\<forall>i < num_workers fl. Suc k \<le> i \<longrightarrow> c_wk t i = WkTraining v uv (prepare (D i) v uv) 0) \<and>
          (\<forall>i. i < Suc k \<longrightarrow> c_wk t i = c_wk s1 i)"
    using Suc.hyps(2) Suc.prems k vf f' by (intro Suc.hyps(1)) (auto simp: s1_def)
  then obtain t where r2: "reachable fl p s1 t" and t: "c_ps t = c_ps s1"
    "\<forall>i < num_workers fl. Suc k \<le> i \<longrightarrow> c_wk t i = WkTraining v uv (prepare (D i) v uv) 0"
    "\<forall>i. i < Suc k \<longrightarrow> c_wk t i = c_wk s1 i" by blast
  have "\<forall>i < num_workers fl. k \<le> i \<longrightarrow> c_wk t i = WkTraining v uv (prepare (D i) v uv) 0"
    using t(2,3) by (auto simp: s1_def le_less Suc_le_eq)
  moreover have "\<forall>i. i < k \<longrightarrow> c_wk t i = c_wk s i" using t(3) by (simp add: s1_def)
  ultimately show ?case using rtranclp_trans [OF r1 r2] t(1) by (auto simp: s1_def)
qed

text \<open>
  C26. The barrier does not block a healthy cluster: if the parameter file exists,
  parameter server 0 builds its vocabularies and every worker of \<open>worker_hosts\<close> reads
  its shard, then from a fresh experiment directory there is a run in which parameter
  server 0 serves and every worker has passed \<open>READY\<close> and trains with the
  vocabularies parameter server 0 built and its own prepared shard.
\<close>

theorem all_workers_train:
  assumes "f (f_params fl) \<noteq> None" and "ps0_build fl p = Inr (v, uv)"
    and "\<forall>i < num_workers fl. \<exists>ds. worker_read fl p i = Inr ds"
  shows "\<exists>s. reachable fl p (init_cluster f False) s \<and> c_ps s 0 = PsServing \<and>
           (\<forall>i < num_workers fl. \<exists>ds. worker_read fl p i = Inr ds \<and> c_wk s i = WkTraining v uv (prepare ds v uv) 0)"
proof -
  obtain D where D: "\<And>i. i < num_workers fl \<Longrightarrow> worker_read fl p i = Inr (D i)" using assms(3) by metis
  obtain f1 where o: "open_params fl f = Inr f1" and f1: "f1 (f_params fl) \<noteq> None"
    using open_params_Inr [where f = f and fl = fl, OF assms(1)] by blast
  let ?s0 = "(init_cluster f False)\<lparr>c_fs := f1(word_vocab_path (f_expdir fl) \<mapsto> vocab_save v,
                                          username_vocab_path (f_expdir fl) \<mapsto> vocab_save uv),
                                  c_ps := (\<lambda>_. PsStart)(0 := PsServing), c_ready := True\<rparr>"
  have r0: "reachable fl p (init_cluster f False) ?s0" by (rule run_ps0_ready [OF o assms(2)])
  have vf: "vocab_files fl v uv (c_fs ?s0)" by (simp add: vocab_files_def vocab_paths_differ)
  have "c_fs ?s0 (f_params fl) \<noteq> None" using f1 by simp
  then obtain t where r1: "reachable fl p ?s0 t" and t: "c_ps t = c_ps ?s0"
    "\<forall>i < num_workers fl. 0 \<le> i \<longrightarrow> c_wk t i = WkTraining v uv (prepare (D i) v uv) 0"
    using run_workers_pass [OF assms(2) D _ vf, of 0] by (auto simp: init_cluster_def)
  show ?thesis using rtranclp_trans [OF r0 r1] t D by (intro exI [of _ t]) auto
qed

theorem all_workers_train_witness:
  "\<exists>v uv. sample_fs (f_params sample_flags) \<noteq> None \<and> ps0_build sample_flags sample_params = Inr (v, uv) \<and>
     (\<forall>i < num_workers sample_flags. \<exists>ds. worker_read sample_flags sample_params i = Inr ds) \<and>
     (\<exists>s. reachable sample_flags sample_params (init_cluster sample_fs False) s \<and> c_ps s 0 = PsServing \<and>
        (\<forall>i < num_workers sample_flags. \<exists>ds. worker_read sample_flags sample_params i = Inr ds \<and>
           c_wk s i = WkTraining v uv (prepare ds v uv) 0))"
proof -
  obtain v uv where b: "ps0_build sample_flags sample_params = Inr (v, uv)"
    using sample_ps0_build by (metis surj_pair)
  have f: "sample_fs (f_params sample_flags) \<noteq> None" by (simp add: sample_fs_def)
  have w: "\<forall>i < num_workers sample_flags. \<exists>ds. worker_read sample_flags sample_params i = Inr ds"
    using sample_worker_read by simp
  show ?thesis using f b w all_workers_train [where f = sample_fs and fl = sample_flags, OF f b w] by blast
qed
end
