(* ===== verification/Spec2Isabelle.thy ===== *)
theory Spec2Isabelle
  imports Corpus_Reader Rnnlm_Driver Distrib_Cluster
begin

text \<open>
  \<^bold>\<open>A verification development for the data pipeline and coordination of calm.\<close>

  \<^bold>\<open>The program.\<close> Two Python 2 scripts train a recurrent language model on a corpus
  of \<open>username<TAB>text\<close> lines. \<open>src/rnnlm.py\<close> is the single-process driver: it
  reads the corpus (\<open>ReadData\<close>, lines 33--55), splits it into a train partition
  (positions not divisible by 10) and an eval partition (the others), builds or loads the
  word and user-name vocabularies, prepares a batched dataset and runs a training loop
  (\<open>Train\<close>), an evaluation loop (\<open>Eval\<close>) or greedy decoding (\<open>Greedy\<close>).
  \<open>src/distrib.py\<close> is the distributed driver: parameter server 0 builds and saves the
  vocabularies and then creates the marker directory \<open>READY\<close>; every worker reads its
  shard of the train partition, polls for \<open>READY\<close>, loads the vocabularies, prepares its
  dataset and runs an asynchronous training loop on a shared global step. The modules
  \<open>vocab\<close> and \<open>batcher\<close> that both scripts import are not among the sources; their
  behaviour is modelled from the specification and marked so in the manifest.

  \<^bold>\<open>Library layout.\<close>
  \<^item> \<open>Calm_Prelude\<close>: the Python exceptions as one datatype \<open>py_error\<close> (a fallible
    operation returns \<open>py_error + 'a\<close>); the Python 2 byte-string primitives (file
    line iteration \<open>py_lines\<close>, \<open>str.split(sep)\<close> as \<open>split_sep\<close>, \<open>str.split()\<close> as
    \<open>split_ws\<close>, \<open>str.lower()\<close> as \<open>py_lower\<close>, \<open>sep.join\<close> as \<open>py_join\<close>) with their
    laws (field counts, join/split round trip, no separator inside a field); counting
    lemmas on positions modulo \<open>n\<close> shared by the reader and the batcher.
  \<^item> \<open>Corpus_Reader\<close>: \<open>ReadData\<close> of \<open>rnnlm.py\<close> as the structural recursion
    \<open>read_data_loop\<close> over the lines with the position and the two output lists as
    accumulators, \<open>read_data\<close> its entry point; the declarative description
    \<open>read_spec\<close>; and the batcher's sharded reader \<open>shard_read_data\<close> (from the
    specification: the same loop with an \<open>idnum mod num_workers = worker\<close> guard).
    Proved: the loop equals its description, including the exact error condition and the
    line after the limit that is split before the limit is checked (C1, a finding); the
    train/eval split is a partition (C2); the worker shards partition the partition
    (C3); every record is well formed (C4); the partition sizes (C5); and positional
    sharding starves worker 0 when the number of workers is a multiple of 10 (C6, a
    finding).

  \<^item> \<open>Vocab\<close> (specification-modelled \<open>vocab.Vocab\<close>): the vocabulary as a record of
    the index-to-word list and the word-to-index map; \<open>MakeFromData\<close> as counting,
    thresholding and sorting by descending count then token with \<open><UNK>\<close> at index 0;
    lookup with the unknown index 0; \<open>Save\<close>/\<open>Load\<close> as one token per line. Lemmas: the
    vocabulary invariant \<open>vocab_wf\<close> for every built and every loaded vocabulary, lookup
    bounds, the threshold characterisation, order independence, load after save.
  \<^item> \<open>Batcher\<close> (specification-modelled \<open>batcher.Dataset\<close>): a record with the phase
    \<open>Empty/Raw/Ready\<close>, \<open>AddDataSource\<close>, \<open>Prepare\<close> (truncation from the tail,
    padding with 0, a Fisher-Yates shuffle driven by a linear congruential generator,
    a \<open>function\<close> with a measure for its termination), \<open>GetNextBatch\<close> (cyclic, reshuffle
    when a batch reaches the end of the order) and \<open>GetNumBatches\<close>. Lemmas: the dataset
    invariant \<open>ds_wf\<close> is kept by every operation, batch shapes and id bounds, the usage
    errors, and the record indices of an evaluation pass.
  \<^item> \<open>Rnnlm_Driver\<close> (\<open>rnnlm.py\<close> lines 57--180): the script \<open>rnnlm_setup\<close> over an
    explicit file system (a map from paths to contents), the feed dictionaries, \<open>GetText\<close>,
    \<open>Train\<close> as \<open>train_loop\<close> emitting log and checkpoint events, \<open>Eval\<close> as
    \<open>eval_loop\<close> returning its printed perplexities and totals, \<open>Greedy\<close> with the
    arg-max loop of \<open>np.argmax\<close>, and the dispatch \<open>rnnlm_main\<close>. The TensorFlow model is
    an opaque function parameter (\<open>run\<close>, \<open>cost\<close>, \<open>step\<close>), so every theorem holds for
    every model. Proved: vocabularies saved by a train run are loaded unchanged by a
    later run (C7); train mode completes all 800000 iterations without exception (C8);
    the checkpoint schedule, whose last checkpoint is at iteration 799000 (C9, a
    finding); an evaluation pass never divides by zero but double-counts wrapped records
    unless the batch size divides the number of records (C10, a finding); eval mode
    completes (C11); a missing vocabulary gives \<open>IOError\<close> (C12); the feed is next-token
    prediction (C13); the logged text is the first record as the model sees it (C14);
    debug mode prints ten vocabulary words (C15); the built vocabularies and their
    thresholds (C16) and their independence of record order (C17); every batch of the
    script's dataset has shape \<open>(batch_size, 36)\<close> and ids below the vocabulary sizes
    (C18).

  \<^item> \<open>Distrib_Cluster\<close> (\<open>distrib.py\<close>, function \<open>main\<close>, lines 32--157): the flags
    and the parsed parameters as records, the host lists (\<open>hosts\<close>, \<open>num_workers\<close>), one
    definition per action of a task (\<open>open_params\<close> for lines 45--47, \<open>ps0_build\<close> for
    52--58, \<open>worker_read\<close> for 69--77, \<open>worker_load\<close> for 84--88, \<open>log_entry\<close> for
    151--154), the program point of each task as the datatypes \<open>ps_pc\<close> and \<open>wk_pc\<close>,
    and the whole cluster as the inductive relation \<open>cluster_step\<close> on a record
    \<open>cluster\<close> (shared file system, \<open>READY\<close>, every task's program point, the shared
    \<open>global_step\<close>, the chief's checkpoints, the log records). Any task may move at any
    time, so \<open>reachable\<close> (the reflexive transitive closure) covers every interleaving.
    A training iteration of line 148 is not atomic. Taking the batch, the increment of
    \<open>global_step\<close> by \<open>train_op\<close>, the read of \<open>global_step\<close> for the fetch, and the
    return with its log line are four steps (\<open>wk_begin\<close>, \<open>wk_incr\<close>, \<open>wk_fetch\<close>,
    \<open>wk_end\<close>). The increment and the read come in either order, and any other task
    may move between them. The supervisor's stop signal and 900-second checkpoint timer
    are nondeterministic steps. Invariants are proved by rule induction over reachable
    states: the barrier invariant \<open>barrier_inv\<close>, the counter invariant \<open>gstep_inv\<close>
    (a sum over the workers of \<open>late_steps\<close>, the increments each can have added since
    the counter reached the ceiling) and \<open>log_inv\<close>. Proved: a training worker has passed
    \<open>READY\<close> after parameter server 0 saved what it built (C19); all workers train with
    the vocabularies built from the unsharded train partition (C20);
    \<open>global_step \<le> 1000000 + 2 * len(worker_hosts)\<close> (C21); with two workers the
    counter reaches 1000003, above one extra step per worker (C22, a finding); a stale
    \<open>READY\<close> lets a worker train with old vocabularies while parameter server 0 dies with
    \<open>OSError\<close> (C23, a finding); when both scripts name the same corpus file the workers'
    datasets together hold exactly the train partition the vocabularies were built from
    (C24, reusing the shard partition lemma of \<open>Corpus_Reader\<close>); the checkpoints and log
    records agree with \<open>global_step\<close> (C25); and when the parameter file exists and every
    read succeeds, there is a run in which every worker of \<open>worker_hosts\<close> trains with
    parameter server 0's vocabularies (C26). The concrete runs are built from the
    three-line sample corpus of \<open>Corpus_Reader\<close>.

  \<^bold>\<open>Bounds and loop counts.\<close> The loops of the program are bounded by their own
  counters (\<open>xrange(800000)\<close>, \<open>GetNumBatches()\<close>, ten greedy steps), so they are
  structural recursions over the count, total by construction; the shuffle terminates
  by the length of the list it draws from. No fuel is used. The worker loop of
  \<open>distrib.py\<close> and the \<open>READY\<close> poll are not functions but steps of
  \<open>cluster_step\<close>: a run is any finite sequence of steps, and the run of C22 takes
  999999 iterations of worker 0 by induction on their number (\<open>run_train\<close>), then two
  rounds of stale iterations of both workers (\<open>run_stale_pair\<close>).

  \<^bold>\<open>Not modelled.\<close> The bz2 decompression (the input is the decompressed byte
  string), progress printing, argument parsing (its values are parameters), the neural
  network, the optimizer and the TensorFlow session (opaque functions), \<open>os.mkdir\<close> of
  the experiment directory, the contents of checkpoints and restarts from them, the
  TensorFlow servers of the parameter servers (they only serve \<open>global_step\<close>, which
  the model holds directly), and wall-clock time (the 1-second poll and the 900-second
  timer become nondeterministic steps).
\<close>

end
